theory Spec2Isabelle
  imports Main "HOL-Library.Word" "HOL-Library.AList" "HOL-Library.Dlist"
begin


section \<open>Item mapping (ItemMapping.cpp, ItemMapping.h)\<close>

text \<open>
  Identifiers of type \<open>int64_t\<close> (item ids, location ids) are modelled as \<open>int\<close>: the
  code only compares them and adds a table index below 200 to the base id, so no
  64-bit arithmetic can overflow. The per-prefix received counter is a C++ \<open>int\<close>
  that is incremented on every grant; it is modelled as a 32-bit word read through
  \<open>sint\<close>.
\<close>

subsection \<open>Static data\<close>

definition ALL_TETROMINOES :: "string list" where
  "ALL_TETROMINOES =
    [''DJ3'', ''MT1'', ''DZ1'', ''DJ2'', ''DJ1'', ''ML1'', ''DI1'',
     ''ML2'', ''DL1'', ''DZ2'',
     ''MT2'', ''DZ3'', ''NL1'', ''MT3'',
     ''MZ1'', ''MZ2'', ''MT4'', ''MT5'',
     ''NZ1'', ''DI2'', ''DT1'', ''DT2'', ''DL2'',
     ''DZ4'', ''NL2'', ''NL3'', ''NZ2'',
     ''NL4'', ''DL3'', ''NT1'', ''NO1'', ''DT3'',
     ''ML3'', ''MZ3'', ''MS1'', ''MT6'', ''MT7'',
     ''NL5'', ''MS2'', ''MT8'', ''MZ4'',
     ''MT9'', ''MJ1'', ''NT2'', ''NL6'',
     ''NT3'', ''NT4'', ''DT4'', ''DJ4'', ''NL7'', ''NL8'',
     ''NI1'', ''NL9'', ''NS1'', ''DJ5'', ''NZ3'',
     ''NI2'', ''MT10'', ''ML4'',
     ''NJ1'', ''NI3'', ''MO1'', ''MI1'',
     ''NZ4'', ''NJ2'', ''NI4'', ''NT5'',
     ''NZ5'', ''NO2'', ''NT6'', ''NS2'',
     ''NJ3'', ''NO3'', ''NZ6'', ''NT7'',
     ''NT8'', ''NI5'', ''NS3'', ''NT9'',
     ''NI6'', ''NO4'', ''NO5'', ''NT10'',
     ''NS4'', ''NJ4'', ''NO6'',
     ''NT11'', ''NO7'', ''NT12'', ''NL10'']"

record StarEntry =
  puzzleCode :: string
  starId :: string

definition ALL_STARS :: "StarEntry list" where
  "ALL_STARS =
    [\<lparr>puzzleCode = ''SCentralArea_Chapter'', starId = ''Star5''\<rparr>,
     \<lparr>puzzleCode = ''SCloud_1_02'', starId = ''Star2''\<rparr>,
     \<lparr>puzzleCode = ''S015'', starId = ''Star1''\<rparr>,
     \<lparr>puzzleCode = ''SCloud_1_03'', starId = ''Star3''\<rparr>,
     \<lparr>puzzleCode = ''S202b'', starId = ''Star4''\<rparr>,
     \<lparr>puzzleCode = ''S201'', starId = ''Star7''\<rparr>,
     \<lparr>puzzleCode = ''S244'', starId = ''Star6''\<rparr>,
     \<lparr>puzzleCode = ''SCloud_1_06'', starId = ''Star8''\<rparr>,
     \<lparr>puzzleCode = ''S209'', starId = ''Star9''\<rparr>,
     \<lparr>puzzleCode = ''S205'', starId = ''Star10''\<rparr>,
     \<lparr>puzzleCode = ''S213'', starId = ''Star11''\<rparr>,
     \<lparr>puzzleCode = ''S300a'', starId = ''Star12''\<rparr>,
     \<lparr>puzzleCode = ''SCloud_2_04'', starId = ''Star24''\<rparr>,
     \<lparr>puzzleCode = ''S215'', starId = ''Star13''\<rparr>,
     \<lparr>puzzleCode = ''SCloud_2_05'', starId = ''Star14''\<rparr>,
     \<lparr>puzzleCode = ''S301'', starId = ''Star16''\<rparr>,
     \<lparr>puzzleCode = ''SCloud_2_07'', starId = ''Star15''\<rparr>,
     \<lparr>puzzleCode = ''SCloud_3_01'', starId = ''Star17''\<rparr>,
     \<lparr>puzzleCode = ''SIslands_01'', starId = ''Star26''\<rparr>,
     \<lparr>puzzleCode = ''SLevel05_Elevator'', starId = ''Star25''\<rparr>,
     \<lparr>puzzleCode = ''S403'', starId = ''Star18''\<rparr>,
     \<lparr>puzzleCode = ''S318'', starId = ''Star19''\<rparr>,
     \<lparr>puzzleCode = ''S408'', starId = ''Star21''\<rparr>,
     \<lparr>puzzleCode = ''S405'', starId = ''Star20''\<rparr>,
     \<lparr>puzzleCode = ''S328'', starId = ''Star23''\<rparr>,
     \<lparr>puzzleCode = ''S404'', starId = ''Star27''\<rparr>,
     \<lparr>puzzleCode = ''S309'', starId = ''Star22''\<rparr>,
     \<lparr>puzzleCode = ''SNexus'', starId = ''Star28''\<rparr>,
     \<lparr>puzzleCode = ''S234'', starId = ''Star29''\<rparr>,
     \<lparr>puzzleCode = ''S308'', starId = ''Star30''\<rparr>]"

definition BASE_ITEM_ID :: int where
  "BASE_ITEM_ID = 0x540000"

definition BASE_LOCATION_ID :: int where
  "BASE_LOCATION_ID = 0x540000"

text \<open>The initializer list of \<open>m_apItemIdToPrefix\<close> in the constructor (19 item types).\<close>

definition apItemIdToPrefix_init :: "(int \<times> string) list" where
  "apItemIdToPrefix_init =
    [(0x540000, ''DJ''), (0x540001, ''DZ''), (0x540002, ''DI''), (0x540003, ''DL''),
     (0x540004, ''DT''), (0x540005, ''MT''), (0x540006, ''ML''), (0x540007, ''MZ''),
     (0x540008, ''MS''), (0x540009, ''MJ''), (0x54000A, ''MO''), (0x54000B, ''MI''),
     (0x54000C, ''NL''), (0x54000D, ''NZ''), (0x54000E, ''NT''), (0x54000F, ''NI''),
     (0x540010, ''NJ''), (0x540011, ''NO''), (0x540012, ''NS'')]"

subsection \<open>Character classes and \<open>std::stoi\<close>\<close>

text \<open>\<open>std::isalpha\<close>, \<open>isspace\<close> and \<open>isdigit\<close> on an unsigned char in the "C" locale.\<close>

definition isalpha :: "char \<Rightarrow> bool" where
  "isalpha c = (let n = (of_char c :: nat) in (65 \<le> n \<and> n \<le> 90) \<or> (97 \<le> n \<and> n \<le> 122))"

definition isspace :: "char \<Rightarrow> bool" where
  "isspace c = (let n = (of_char c :: nat) in n = 32 \<or> (9 \<le> n \<and> n \<le> 13))"

definition isdigit :: "char \<Rightarrow> bool" where
  "isdigit c = (let n = (of_char c :: nat) in 48 \<le> n \<and> n \<le> 57)"

definition digits_value :: "string \<Rightarrow> int" where
  "digits_value ds = foldl (\<lambda>acc c. 10 * acc + (int (of_char c) - 48)) 0 ds"

text \<open>
  \<open>std::stoi\<close> in base 10: leading white space is skipped, one sign is accepted, the
  longest run of digits is converted. \<open>None\<close> stands for the two exceptions it throws:
  \<open>std::invalid_argument\<close> when there is no digit, \<open>std::out_of_range\<close> when the value
  does not fit an \<open>int\<close>.
\<close>

definition stoi :: "string \<Rightarrow> int option" where
  "stoi s =
    (let s1 = dropWhile isspace s;
         neg = (s1 \<noteq> [] \<and> hd s1 = CHR ''-'');
         s2 = (if s1 \<noteq> [] \<and> (hd s1 = CHR ''-'' \<or> hd s1 = CHR ''+'') then tl s1 else s1);
         ds = takeWhile isdigit s2;
         v = (if neg then - digits_value ds else digits_value ds)
     in if ds = [] then None
        else if - (2 ^ 31) \<le> v \<and> v < 2 ^ 31 then Some v
        else None)"

definition ExtractPrefix :: "string \<Rightarrow> string" where
  "ExtractPrefix tetId = takeWhile isalpha tetId"

definition ExtractNumber :: "string \<Rightarrow> int option" where
  "ExtractNumber tetId =
    (let rest = dropWhile isalpha tetId
     in if rest \<noteq> [] then stoi rest else Some 0)"

subsection \<open>The mapping object\<close>

text \<open>
  \<open>m_tetrominoSequences\<close> is kept as an association list because \<open>BuildSequences\<close>
  iterates over it; the other \<open>unordered_map\<close>s are only looked up and stored into.
  The display-name table is not part of the model.
\<close>

record ItemMapping =
  m_apItemIdToPrefix :: "int \<rightharpoonup> string"
  m_tetrominoSequences :: "(string \<times> string list) list"
  m_locationNameToId :: "string \<rightharpoonup> int"
  m_locationIdToName :: "int \<rightharpoonup> string"
  m_receivedCounts :: "string \<rightharpoonup> 32 word"

text \<open>\<open>m_tetrominoSequences[prefix].push_back(tetId)\<close>\<close>

definition push_back_sequence :: "string \<Rightarrow> string \<Rightarrow> (string \<times> string list) list \<Rightarrow> (string \<times> string list) list" where
  "push_back_sequence prefix tetId m =
    AList.update prefix ((case map_of m prefix of None \<Rightarrow> [] | Some s \<Rightarrow> s) @ [tetId]) m"

definition number_key :: "string \<Rightarrow> int" where
  "number_key t = (case ExtractNumber t of Some n \<Rightarrow> n | None \<Rightarrow> 0)"

text \<open>
  \<open>std::sort\<close> with the comparator \<open>ExtractNumber(a) < ExtractNumber(b)\<close>. On two or
  more elements every element is compared at least once, so the comparator throws
  (result \<open>None\<close>) as soon as one number does not parse. The sorted order is that of an
  insertion sort on the numbers; \<open>std::sort\<close> is not stable, and the two agree when the
  numbers of a family are pairwise different.
\<close>

definition sort_sequence :: "string list \<Rightarrow> string list option" where
  "sort_sequence seq =
    (if 2 \<le> length seq \<and> None \<in> set (map ExtractNumber seq) then None
     else Some (sort_key number_key seq))"

definition group_tetrominoes :: "string list \<Rightarrow> (string \<times> string list) list" where
  "group_tetrominoes tets =
    foldl (\<lambda>m tetId. let prefix = ExtractPrefix tetId
                      in if prefix \<noteq> [] then push_back_sequence prefix tetId m else m) [] tets"

definition BuildSequences :: "(string \<times> string list) list option" where
  "BuildSequences =
    those (map (\<lambda>(prefix, seq). map_option (Pair prefix) (sort_sequence seq))
               (group_tetrominoes ALL_TETROMINOES))"

text \<open>The two loops of \<open>BuildTables\<close>: one location id per name, counted upwards.\<close>

fun assign_locations ::
  "string list \<Rightarrow> int \<Rightarrow> (string \<rightharpoonup> int) \<Rightarrow> (int \<rightharpoonup> string) \<Rightarrow> int \<times> (string \<rightharpoonup> int) \<times> (int \<rightharpoonup> string)" where
  "assign_locations [] idx n2i i2n = (idx, n2i, i2n)"
| "assign_locations (name # rest) idx n2i i2n =
    (let locId = BASE_LOCATION_ID + idx
     in assign_locations rest (idx + 1) (n2i(name \<mapsto> locId)) (i2n(locId \<mapsto> name)))"

text \<open>The constructor; \<open>None\<close> when \<open>BuildSequences\<close> throws.\<close>

definition ItemMapping_ctor :: "ItemMapping option" where
  "ItemMapping_ctor =
    (case BuildSequences of
       None \<Rightarrow> None
     | Some seqs \<Rightarrow>
        (case assign_locations ALL_TETROMINOES 0 Map.empty Map.empty of
           (idx, n2i, i2n) \<Rightarrow>
             (case assign_locations (map starId ALL_STARS) idx n2i i2n of
                (idx', n2i', i2n') \<Rightarrow>
                  Some \<lparr>m_apItemIdToPrefix = map_of apItemIdToPrefix_init,
                        m_tetrominoSequences = seqs,
                        m_locationNameToId = n2i',
                        m_locationIdToName = i2n',
                        m_receivedCounts = Map.empty\<rparr>)))"

subsection \<open>Item resolution\<close>

datatype error = OutOfRange

text \<open>The counter of a prefix; \<open>operator[]\<close> creates a missing counter as 0.\<close>

definition received_count :: "ItemMapping \<Rightarrow> string \<Rightarrow> 32 word" where
  "received_count M prefix = (case m_receivedCounts M prefix of None \<Rightarrow> 0 | Some c \<Rightarrow> c)"

text \<open>
  \<open>ResolveNextItem\<close> returns the \<open>std::optional\<close> (\<open>Inr None\<close> is \<open>std::nullopt\<close>) and the
  updated object. \<open>seq[count - 1]\<close> outside the vector is undefined behaviour, which
  the model makes the error \<open>OutOfRange\<close>; it needs a counter that has wrapped around.
  \<open>static_cast<int>(seq.size())\<close> is the conversion to 32 bits.
\<close>

definition ResolveNextItem :: "ItemMapping \<Rightarrow> int \<Rightarrow> (error + string option) \<times> ItemMapping" where
  "ResolveNextItem M apItemId =
    (case m_apItemIdToPrefix M apItemId of
       None \<Rightarrow> (Inr None, M)
     | Some prefix \<Rightarrow>
        (case map_of (m_tetrominoSequences M) prefix of
           None \<Rightarrow> (Inr None, M)
         | Some seq \<Rightarrow>
            if seq = [] then (Inr None, M)
            else
              let count = received_count M prefix + 1;
                  M' = M\<lparr>m_receivedCounts := (m_receivedCounts M)(prefix \<mapsto> count)\<rparr>
              in if sint count > sint (word_of_nat (length seq) :: 32 word) then (Inr None, M')
                 else if 0 \<le> sint count - 1 \<and> sint count - 1 < int (length seq)
                      then (Inr (Some (seq ! nat (sint count - 1))), M')
                      else (Inl OutOfRange, M')))"

definition ResetItemCounters :: "ItemMapping \<Rightarrow> ItemMapping" where
  "ResetItemCounters M = M\<lparr>m_receivedCounts := Map.empty\<rparr>"

definition GetLocationId :: "ItemMapping \<Rightarrow> string \<Rightarrow> int" where
  "GetLocationId M tetrominoId =
    (case m_locationNameToId M tetrominoId of Some locId \<Rightarrow> locId | None \<Rightarrow> - 1)"

definition GetLocationName :: "ItemMapping \<Rightarrow> int \<Rightarrow> string" where
  "GetLocationName M locationId =
    (case m_locationIdToName M locationId of Some name \<Rightarrow> name | None \<Rightarrow> [])"

subsection \<open>Derived notions used to state the properties\<close>

text \<open>The sequence of a family; a family without an entry has the empty sequence.\<close>

definition sequence_of :: "ItemMapping \<Rightarrow> string \<Rightarrow> string list" where
  "sequence_of M prefix = (case map_of (m_tetrominoSequences M) prefix of None \<Rightarrow> [] | Some seq \<Rightarrow> seq)"

text \<open>How many grants in a stream belong to a family.\<close>

definition family_grants :: "ItemMapping \<Rightarrow> string \<Rightarrow> int list \<Rightarrow> nat" where
  "family_grants M prefix ids = length (filter (\<lambda>i. m_apItemIdToPrefix M i = Some prefix) ids)"

text \<open>Two objects with the same static tables; only the counters may differ.\<close>

definition same_tables :: "ItemMapping \<Rightarrow> ItemMapping \<Rightarrow> bool" where
  "same_tables M M' =
    (m_apItemIdToPrefix M = m_apItemIdToPrefix M' \<and> m_tetrominoSequences M = m_tetrominoSequences M' \<and>
     m_locationNameToId M = m_locationNameToId M' \<and> m_locationIdToName M = m_locationIdToName M')"

text \<open>
  The loop of the items-received handler as far as the mapping is concerned: one
  \<open>ResolveNextItem\<close> per grant, in stream order. The results are collected.
\<close>

fun replay :: "ItemMapping \<Rightarrow> int list \<Rightarrow> (error + string option) list \<times> ItemMapping" where
  "replay M [] = ([], M)"
| "replay M (i # ids) =
    (case ResolveNextItem M i of (r, M') \<Rightarrow>
       (case replay M' ids of (rs, M'') \<Rightarrow> (r # rs, M'')))"

text \<open>Any interleaving of the two mutating calls of the class.\<close>

datatype mapping_call = CallResolve int | CallReset

fun apply_call :: "ItemMapping \<Rightarrow> mapping_call \<Rightarrow> ItemMapping" where
  "apply_call M (CallResolve apItemId) = snd (ResolveNextItem M apItemId)"
| "apply_call M CallReset = ResetItemCounters M"

definition run_calls :: "ItemMapping \<Rightarrow> mapping_call list \<Rightarrow> ItemMapping" where
  "run_calls M calls = foldl apply_call M calls"

definition grants_since_reset :: "mapping_call list \<Rightarrow> int list" where
  "grants_since_reset calls =
     foldl (\<lambda>ids c. case c of CallReset \<Rightarrow> [] | CallResolve apItemId \<Rightarrow> ids @ [apItemId]) [] calls"

text \<open>The object the constructor returns (it does not throw, lemma \<open>ItemMapping_ctor_returns\<close>).\<close>

definition constructed_mapping :: ItemMapping where
  "constructed_mapping = the ItemMapping_ctor"

text \<open>The value \<open>BuildSequences\<close> computes (lemma \<open>BuildSequences_value\<close>).\<close>

definition built_sequences :: "(string \<times> string list) list" where
  "built_sequences =
    [(''DJ'', [''DJ1'', ''DJ2'', ''DJ3'', ''DJ4'', ''DJ5'']),
     (''MT'', [''MT1'', ''MT2'', ''MT3'', ''MT4'', ''MT5'', ''MT6'', ''MT7'', ''MT8'', ''MT9'', ''MT10'']),
     (''DZ'', [''DZ1'', ''DZ2'', ''DZ3'', ''DZ4'']),
     (''ML'', [''ML1'', ''ML2'', ''ML3'', ''ML4'']),
     (''DI'', [''DI1'', ''DI2'']),
     (''DL'', [''DL1'', ''DL2'', ''DL3'']),
     (''NL'', [''NL1'', ''NL2'', ''NL3'', ''NL4'', ''NL5'', ''NL6'', ''NL7'', ''NL8'', ''NL9'', ''NL10'']),
     (''MZ'', [''MZ1'', ''MZ2'', ''MZ3'', ''MZ4'']),
     (''NZ'', [''NZ1'', ''NZ2'', ''NZ3'', ''NZ4'', ''NZ5'', ''NZ6'']),
     (''DT'', [''DT1'', ''DT2'', ''DT3'', ''DT4'']),
     (''NT'', [''NT1'', ''NT2'', ''NT3'', ''NT4'', ''NT5'', ''NT6'', ''NT7'', ''NT8'', ''NT9'', ''NT10'', ''NT11'', ''NT12'']),
     (''NO'', [''NO1'', ''NO2'', ''NO3'', ''NO4'', ''NO5'', ''NO6'', ''NO7'']),
     (''MS'', [''MS1'', ''MS2'']),
     (''MJ'', [''MJ1'']),
     (''NI'', [''NI1'', ''NI2'', ''NI3'', ''NI4'', ''NI5'', ''NI6'']),
     (''NS'', [''NS1'', ''NS2'', ''NS3'', ''NS4'']),
     (''NJ'', [''NJ1'', ''NJ2'', ''NJ3'', ''NJ4'']),
     (''MO'', [''MO1'']),
     (''MI'', [''MI1''])]"

text \<open>All checkable entities in the order \<open>BuildTables\<close> numbers them.\<close>

definition location_names :: "string list" where
  "location_names = ALL_TETROMINOES @ map starId ALL_STARS"

text \<open>The two location tables are inverse to each other.\<close>

definition inverse_tables :: "(string \<rightharpoonup> int) \<Rightarrow> (int \<rightharpoonup> string) \<Rightarrow> bool" where
  "inverse_tables n2i i2n = (\<forall>name locId. n2i name = Some locId \<longleftrightarrow> i2n locId = Some name)"

section \<open>Session state (ModState.h)\<close>

text \<open>
  The two \<open>std::unordered_set\<close>s are duplicate-free lists (\<open>dlist\<close>): \<open>insert\<close> adds an
  element only when it is absent. The order of the list stands for the unspecified
  iteration order of the set; no property below depends on it. The progress object and
  the debug-key flags are left out.
\<close>

record ModState =
  LevelTransitionCooldown :: int
  GrantedItems :: "string dlist"
  CheckedLocations :: "string dlist"
  APSynced :: bool
  ReusableTetrominos :: bool
  NeedsProgressRefresh :: bool
  NeedsTetrominoScan :: bool

text \<open>The member initializers of the struct.\<close>

definition ModState_init :: ModState where
  "ModState_init =
    \<lparr>LevelTransitionCooldown = 30, GrantedItems = Dlist.empty, CheckedLocations = Dlist.empty,
     APSynced = False, ReusableTetrominos = False, NeedsProgressRefresh = True,
     NeedsTetrominoScan = True\<rparr>"



definition MarkLocationChecked :: "string \<Rightarrow> ModState \<Rightarrow> ModState" where
  "MarkLocationChecked tetrominoId st =
    st\<lparr>CheckedLocations := Dlist.insert tetrominoId (CheckedLocations st)\<rparr>"

definition IsLocationChecked :: "ModState \<Rightarrow> string \<Rightarrow> bool" where
  "IsLocationChecked st tetrominoId = Dlist.member (CheckedLocations st) tetrominoId"

definition IsGranted :: "ModState \<Rightarrow> string \<Rightarrow> bool" where
  "IsGranted st tetrominoId = Dlist.member (GrantedItems st) tetrominoId"

definition ShouldBeCollectable :: "ModState \<Rightarrow> string \<Rightarrow> bool" where
  "ShouldBeCollectable st tetrominoId = (\<not> IsLocationChecked st tetrominoId)"

section \<open>Observable effects\<close>

text \<open>
  Everything the engine does to the outside is recorded in order: messages handed to the
  protocol library, calls into the game world, invocations of the location-check
  callback, and the log lines of the fence retry queue. HUD notifications and the other
  log lines are left out.
\<close>

datatype client_status = PLAYING | GOAL

datatype effect =
    SendConnectSlot
  | SendLocationChecks "int list"
  | SendStatusUpdate client_status
  | LogCannotSendLocationCheck
  | LocationCheckCallback int
  | CallSetActorVisible string
  | CallSetActorHidden string
  | CallFenceOpen string
  | LogFenceQueued string
  | LogNoFenceOpenFunction
  | LogFenceOpened string int
  | LogFenceRetry int string
  | LogFenceGaveUp string

section \<open>Protocol client (APClient.cpp)\<close>

text \<open>
  \<open>has_ap\<close> stands for \<open>m_impl && m_impl->ap\<close>. The callbacks reach the session state
  and the item mapping through the pointers stored by \<open>Init\<close>; a \<open>Session\<close> is the
  wrapper together with these two objects.
\<close>

record APClientWrapper =
  has_ap :: bool
  m_connected :: bool
  m_slotConnected :: bool
  m_playerSlot :: int
  m_teamNumber :: int

record Session =
  s_client :: APClientWrapper
  s_state :: ModState
  s_mapping :: ItemMapping

record NetworkItem =
  ni_item :: int
  ni_player :: int
  ni_flags :: int

text \<open>
  The value of \<open>slotData["reusable_tetrominos"]\<close>: absent, convertible to \<open>int\<close>, or of a
  type for which \<open>get<int>()\<close> throws.
\<close>

datatype slot_field = FieldAbsent | FieldInt int | FieldWrongType

text \<open>
  The events the library delivers inside \<open>poll()\<close>. A slot-connected event carries what
  the handler reads from the library at that moment: player number, team number and the
  server's checked locations (\<open>get_checked_locations()\<close>, read twice, unchanged in between).
\<close>

datatype net_event =
    SocketConnected
  | SocketDisconnected
  | SocketError
  | RoomInfo
  | SlotConnected int int "int list" slot_field
  | SlotRefused
  | ItemsReceived "NetworkItem list"
  | LocationChecked "int list"
  | PrintJSON

text \<open>The loop restoring the server's checked locations (also the location-checked handler).\<close>

fun mark_server_checked :: "ItemMapping \<Rightarrow> int list \<Rightarrow> ModState \<Rightarrow> ModState" where
  "mark_server_checked M [] st = st"
| "mark_server_checked M (locId # rest) st =
    (let tetId = GetLocationName M locId
     in mark_server_checked M rest (if tetId \<noteq> [] then MarkLocationChecked tetId st else st))"

text \<open>The loop collecting the locally checked locations the server does not know.\<close>

fun collect_to_send :: "ItemMapping \<Rightarrow> int list \<Rightarrow> string list \<Rightarrow> int list" where
  "collect_to_send M serverCheckedSet [] = []"
| "collect_to_send M serverCheckedSet (tetId # rest) =
    (let locId = GetLocationId M tetId
     in if locId \<ge> 0 \<and> count_list serverCheckedSet locId = 0
        then locId # collect_to_send M serverCheckedSet rest
        else collect_to_send M serverCheckedSet rest)"

text \<open>
  The slot-connected handler. When \<open>get<int>()\<close> throws, the exception leaves the
  handler before \<open>APSynced\<close> is set.
\<close>

definition slot_connected_handler ::
  "int \<Rightarrow> int \<Rightarrow> int list \<Rightarrow> slot_field \<Rightarrow> Session \<Rightarrow> Session \<times> effect list" where
  "slot_connected_handler playerNumber teamNumber serverChecked reusable s =
    (let c1 = (s_client s)\<lparr>m_slotConnected := True\<rparr>;
         c2 = (if has_ap c1 then c1\<lparr>m_playerSlot := playerNumber, m_teamNumber := teamNumber\<rparr> else c1);
         M1 = ResetItemCounters (s_mapping s);
         st1 = (s_state s)\<lparr>GrantedItems := Dlist.empty\<rparr>;
         st2 = (if has_ap c2 then mark_server_checked M1 serverChecked st1 else st1);
         toSend = (if has_ap c2
                   then collect_to_send M1 serverChecked (list_of_dlist (CheckedLocations st2))
                   else []);
         sent = (if toSend \<noteq> [] then [SendLocationChecks toSend] else [])
     in case reusable of
          FieldWrongType \<Rightarrow> (\<lparr>s_client = c2, s_state = st2, s_mapping = M1\<rparr>, sent)
        | _ \<Rightarrow>
          (let st3 = (case reusable of FieldInt r \<Rightarrow> st2\<lparr>ReusableTetrominos := (r \<noteq> 0)\<rparr> | _ \<Rightarrow> st2);
               st4 = st3\<lparr>APSynced := True\<rparr>
           in (\<lparr>s_client = c2, s_state = st4, s_mapping = M1\<rparr>,
               sent @ (if has_ap c2 then [SendStatusUpdate PLAYING] else []))))"

text \<open>
  The loop of the items-received handler. Undefined behaviour inside
  \<open>ResolveNextItem\<close> aborts the handler (\<open>None\<close>).
\<close>

fun grant_items :: "NetworkItem list \<Rightarrow> ItemMapping \<Rightarrow> ModState \<Rightarrow> (ItemMapping \<times> ModState) option" where
  "grant_items [] M st = Some (M, st)"
| "grant_items (it # rest) M st =
    (case ResolveNextItem M (ni_item it) of
       (Inl e, M') \<Rightarrow> None
     | (Inr None, M') \<Rightarrow> grant_items rest M' st
     | (Inr (Some tetId), M') \<Rightarrow>
         grant_items rest M' (st\<lparr>GrantedItems := Dlist.insert tetId (GrantedItems st)\<rparr>))"

definition items_received_handler :: "NetworkItem list \<Rightarrow> Session \<Rightarrow> Session" where
  "items_received_handler items s =
    (case grant_items items (s_mapping s) (s_state s) of
       None \<Rightarrow> s
     | Some (M', st') \<Rightarrow> s\<lparr>s_mapping := M', s_state := st'\<lparr>APSynced := True\<rparr>\<rparr>)"

definition location_checked_handler :: "int list \<Rightarrow> Session \<Rightarrow> Session" where
  "location_checked_handler locations s =
    s\<lparr>s_state := mark_server_checked (s_mapping s) locations (s_state s)\<rparr>"

fun handle_event :: "net_event \<Rightarrow> Session \<Rightarrow> Session \<times> effect list" where
  "handle_event SocketConnected s = (s\<lparr>s_client := (s_client s)\<lparr>m_connected := True\<rparr>\<rparr>, [])"
| "handle_event SocketDisconnected s =
    (s\<lparr>s_client := (s_client s)\<lparr>m_connected := False, m_slotConnected := False\<rparr>\<rparr>, [])"
| "handle_event SocketError s = (s, [])"
| "handle_event RoomInfo s = (s, if has_ap (s_client s) then [SendConnectSlot] else [])"
| "handle_event (SlotConnected playerNumber teamNumber serverChecked reusable) s =
    slot_connected_handler playerNumber teamNumber serverChecked reusable s"
| "handle_event SlotRefused s = (s\<lparr>s_client := (s_client s)\<lparr>m_slotConnected := False\<rparr>\<rparr>, [])"
| "handle_event (ItemsReceived items) s = (items_received_handler items s, [])"
| "handle_event (LocationChecked locations) s = (location_checked_handler locations s, [])"
| "handle_event PrintJSON s = (s, [])"

text \<open>
  \<open>Poll\<close>: the events of one \<open>poll()\<close> in the order the library delivers them. An
  exception inside \<open>poll()\<close> is caught by \<open>Poll\<close>; the events delivered before it took
  effect, so it shortens the list.
\<close>

fun Poll :: "net_event list \<Rightarrow> Session \<Rightarrow> Session \<times> effect list" where
  "Poll [] s = (s, [])"
| "Poll (ev # evs) s =
    (case handle_event ev s of (s1, effs1) \<Rightarrow>
       (case Poll evs s1 of (s2, effs2) \<Rightarrow> (s2, effs1 @ effs2)))"

definition SendLocationCheck :: "APClientWrapper \<Rightarrow> int \<Rightarrow> effect list" where
  "SendLocationCheck c locationId =
    (if \<not> has_ap c \<or> \<not> m_slotConnected c then [LogCannotSendLocationCheck]
     else [SendLocationChecks [locationId]])"

section \<open>Visibility manager (VisibilityManager.cpp, VisibilityManager.h)\<close>

subsection \<open>Tetromino ids of actors\<close>

definition TypeToLetter :: "8 word \<Rightarrow> char" where
  "TypeToLetter type =
    (if type = 1 then CHR ''D'' else if type = 2 then CHR ''M'' else if type = 4 then CHR ''N''
     else if type = 8 then CHR ''S'' else if type = 16 then CHR ''E'' else if type = 32 then CHR ''A''
     else if type = 64 then CHR ''H'' else CHR ''?'')"

definition ShapeToLetter :: "8 word \<Rightarrow> char" where
  "ShapeToLetter shape =
    (if shape = 1 then CHR ''I'' else if shape = 2 then CHR ''J'' else if shape = 4 then CHR ''L''
     else if shape = 8 then CHR ''O'' else if shape = 16 then CHR ''S'' else if shape = 32 then CHR ''T''
     else if shape = 64 then CHR ''Z'' else CHR ''?'')"

text \<open>\<open>std::to_string\<close> of an \<open>int\<close>.\<close>

fun nat_to_string :: "nat \<Rightarrow> string" where
  "nat_to_string n =
    (if n < 10 then [char_of (48 + n)]
     else nat_to_string (n div 10) @ [char_of (48 + n mod 10)])"

definition to_string :: "int \<Rightarrow> string" where
  "to_string i = (if i < 0 then CHR ''-'' # nat_to_string (nat (- i)) else nat_to_string (nat i))"

definition FormatTetrominoId :: "8 word \<Rightarrow> 8 word \<Rightarrow> 32 word \<Rightarrow> string" where
  "FormatTetrominoId typeVal shapeVal number =
    (let tl = TypeToLetter typeVal; sl = ShapeToLetter shapeVal
     in if tl = CHR ''?'' \<or> sl = CHR ''?'' then []
        else [tl] @ [sl] @ to_string (sint number))"

subsection \<open>What a pass observes of the game world\<close>

text \<open>
  The game world is outside the program. Each pass gets the answers of the engine as an
  argument, and the properties hold for all answers. An actor is one non-null
  \<open>UObject*\<close> returned by \<open>FindAllOf\<close>: the bytes of its \<open>InstanceInfo\<close> (when readable),
  its position (when \<open>ReadActorPosition\<close> succeeds), and the answers of the two
  \<open>IsActorHidden\<close> calls of \<open>EnforceVisibility\<close> (before the retry, and in the pickup
  condition). Coordinates are \<open>float\<close>s; their type \<open>'f\<close> and the comparison
  \<open>distSq < PICKUP_RADIUS_SQ\<close> are parameters.
\<close>

record 'f actor =
  instance_info :: "(8 word \<times> 8 word \<times> 32 word) option"
  position :: "('f \<times> 'f \<times> 'f) option"
  hidden_at_retry :: bool
  hidden_at_pickup :: bool

record fence_actor =
  full_name :: "string option"
  open_returns :: bool

text \<open>
  \<open>find_items\<close> is the result of \<open>FindAllOf("BP_TetrominoItem_C")\<close> (\<open>None\<close>: it throws; a
  \<open>None\<close> element: a null pointer), \<open>player_position\<close> that of \<open>GetPlayerPosition\<close>,
  \<open>built_fence_map\<close> the map \<open>BuildFenceMap\<close> reads out of the level,
  \<open>open_function_found\<close> whether \<open>StaticFindObject\<close> returns the \<open>Open\<close> function, and
  \<open>find_fences k\<close> the result of \<open>FindAllOf("LoweringFence")\<close> for the \<open>k\<close>-th pending
  entry of the pass.
\<close>

record 'f world =
  find_items :: "'f actor option list option"
  player_position :: "('f \<times> 'f \<times> 'f) option"
  built_fence_map :: "string \<rightharpoonup> string"
  open_function_found :: bool
  find_fences :: "nat \<Rightarrow> fence_actor option list option"

definition ReadInstanceInfo :: "'f actor \<Rightarrow> (8 word \<times> 8 word \<times> 32 word) option" where
  "ReadInstanceInfo a =
    (case instance_info a of
       None \<Rightarrow> None
     | Some (outType, outShape, outNumber) \<Rightarrow>
         if outType \<noteq> 0 \<and> outShape \<noteq> 0 \<and> 0 < sint outNumber
         then Some (outType, outShape, outNumber) else None)"

text \<open>The id of an item of the \<open>FindAllOf\<close> result, as the three passes derive it.\<close>

definition item_tetId :: "'f actor option \<Rightarrow> string option" where
  "item_tetId it =
    (case it of
       None \<Rightarrow> None
     | Some a \<Rightarrow>
        (case ReadInstanceInfo a of
           None \<Rightarrow> None
         | Some (type, shape, number) \<Rightarrow>
             (let tetId = FormatTetrominoId type shape number
              in if tetId = [] then None else Some tetId)))"

text \<open>\<open>ReadActorPosition\<close> on an item that has an id (so it is not null).\<close>

definition item_position :: "'f actor option \<Rightarrow> ('f \<times> 'f \<times> 'f) option" where
  "item_position it = (case it of None \<Rightarrow> None | Some a \<Rightarrow> position a)"

subsection \<open>The manager\<close>

record 'f TrackedTetromino =
  tt_id :: string
  tt_x :: 'f
  tt_y :: 'f
  tt_z :: 'f
  reported :: bool
  visRetries :: int
  hasPosition :: bool

record PendingFenceOpen =
  pending_tetId :: string
  fenceFullName :: string
  attempts :: int

text \<open>
  \<open>m_tracked\<close> is iterated by \<open>EnforceVisibility\<close>, so it is an association list;
  \<open>m_fnFenceOpen\<close> is the cached function pointer, of which only null or not matters.
\<close>

record 'f VisibilityManager =
  m_tracked :: "(string \<times> 'f TrackedTetromino) list"
  m_fenceMap :: "string \<rightharpoonup> string"
  m_pendingFenceOpens :: "PendingFenceOpen list"
  m_fnFenceOpen :: bool

definition VISIBILITY_RETRY_COUNT :: int where
  "VISIBILITY_RETRY_COUNT = 10"

definition VisibilityManager_init :: "'f VisibilityManager" where
  "VisibilityManager_init =
    \<lparr>m_tracked = [], m_fenceMap = Map.empty, m_pendingFenceOpens = [], m_fnFenceOpen = False\<rparr>"

text \<open>A default-constructed \<open>TrackedTetromino\<close> with its id and position filled in.\<close>

definition new_tracked :: "string \<Rightarrow> ('f::zero \<times> 'f \<times> 'f) option \<Rightarrow> 'f TrackedTetromino" where
  "new_tracked tetId pos =
    (case pos of
       Some (px, py, pz) \<Rightarrow>
         \<lparr>tt_id = tetId, tt_x = px, tt_y = py, tt_z = pz, reported = False, visRetries = 0,
          hasPosition = True\<rparr>
     | None \<Rightarrow>
         \<lparr>tt_id = tetId, tt_x = 0, tt_y = 0, tt_z = 0, reported = False, visRetries = 0,
          hasPosition = False\<rparr>)"

text \<open>The initial visibility both scans apply to an item.\<close>

definition apply_visibility ::
  "ModState \<Rightarrow> string \<Rightarrow> 'f TrackedTetromino \<Rightarrow> 'f TrackedTetromino \<times> effect list" where
  "apply_visibility st tetId tt =
    (if ShouldBeCollectable st tetId
     then (tt\<lparr>visRetries := VISIBILITY_RETRY_COUNT\<rparr>, [CallSetActorVisible tetId])
     else if IsLocationChecked st tetId then (tt, [CallSetActorHidden tetId])
     else (tt, []))"

fun scan_items ::
  "ModState \<Rightarrow> ('f::zero) actor option list \<Rightarrow> (string \<times> 'f TrackedTetromino) list \<Rightarrow>
   (string \<times> 'f TrackedTetromino) list \<times> effect list" where
  "scan_items st [] tracked = (tracked, [])"
| "scan_items st (it # rest) tracked =
    (case item_tetId it of
       None \<Rightarrow> scan_items st rest tracked
     | Some tetId \<Rightarrow>
        (case apply_visibility st tetId (new_tracked tetId (item_position it)) of
           (tt, effs) \<Rightarrow>
             (case scan_items st rest (AList.update tetId tt tracked) of
                (tracked', effs') \<Rightarrow> (tracked', effs @ effs'))))"

definition ScanLevel ::
  "('f::zero) world \<Rightarrow> ModState \<Rightarrow> 'f VisibilityManager \<Rightarrow> 'f VisibilityManager \<times> effect list" where
  "ScanLevel w st vm =
    (let vm1 = vm\<lparr>m_tracked := []\<rparr>
     in case find_items w of
          None \<Rightarrow> (vm1, [])
        | Some items \<Rightarrow>
            if items = [] then (vm1, [])
            else (case scan_items st items [] of
                    (tracked, effs) \<Rightarrow>
                      (vm1\<lparr>m_tracked := tracked, m_fenceMap := built_fence_map w\<rparr>, effs)))"

text \<open>
  \<open>RefreshVisibility\<close>: the tracked set is rebuilt; an item tracked before keeps its
  \<open>reported\<close> flag, and its old position when the new read fails.
\<close>

definition carry_over :: "'f TrackedTetromino option \<Rightarrow> 'f TrackedTetromino \<Rightarrow> 'f TrackedTetromino" where
  "carry_over old tt =
    (case old of
       None \<Rightarrow> tt
     | Some prev \<Rightarrow>
         (let tt1 = tt\<lparr>reported := reported prev\<rparr>
          in if \<not> hasPosition tt1 \<and> hasPosition prev
             then tt1\<lparr>tt_x := tt_x prev, tt_y := tt_y prev, tt_z := tt_z prev, hasPosition := True\<rparr>
             else tt1))"

fun refresh_items ::
  "ModState \<Rightarrow> (string \<times> 'f TrackedTetromino) list \<Rightarrow> ('f::zero) actor option list \<Rightarrow>
   (string \<times> 'f TrackedTetromino) list \<Rightarrow> (string \<times> 'f TrackedTetromino) list \<times> effect list" where
  "refresh_items st old [] newTracked = (newTracked, [])"
| "refresh_items st old (it # rest) newTracked =
    (case item_tetId it of
       None \<Rightarrow> refresh_items st old rest newTracked
     | Some tetId \<Rightarrow>
        (case apply_visibility st tetId
                (carry_over (map_of old tetId) (new_tracked tetId (item_position it))) of
           (tt, effs) \<Rightarrow>
             (case refresh_items st old rest (AList.update tetId tt newTracked) of
                (tracked', effs') \<Rightarrow> (tracked', effs @ effs'))))"

definition RefreshVisibility ::
  "('f::zero) world \<Rightarrow> ModState \<Rightarrow> 'f VisibilityManager \<Rightarrow> 'f VisibilityManager \<times> effect list" where
  "RefreshVisibility w st vm =
    (case find_items w of
       None \<Rightarrow> (vm, [])
     | Some items \<Rightarrow>
         if items = [] then (vm, [])
         else (case refresh_items st (m_tracked vm) items [] of
                 (tracked, effs) \<Rightarrow> (vm\<lparr>m_tracked := tracked\<rparr>, effs)))"

text \<open>\<open>OpenFenceForTetromino\<close>: queue the fence mapped to the tetromino, if there is one.\<close>

definition OpenFenceForTetromino ::
  "(string \<rightharpoonup> string) \<Rightarrow> string \<Rightarrow> PendingFenceOpen list \<Rightarrow> PendingFenceOpen list \<times> effect list" where
  "OpenFenceForTetromino fenceMap tetId pending =
    (case fenceMap tetId of
       None \<Rightarrow> (pending, [])
     | Some name \<Rightarrow>
         (pending @ [\<lparr>pending_tetId = tetId, fenceFullName = name, attempts = 0\<rparr>],
          [LogFenceQueued tetId]))"

text \<open>The temporary id-to-actor map of one enforcement tick; a later item overwrites.\<close>

fun build_idToActor :: "'f actor option list \<Rightarrow> (string \<rightharpoonup> 'f actor) \<Rightarrow> (string \<rightharpoonup> 'f actor)" where
  "build_idToActor [] m = m"
| "build_idToActor (it # rest) m =
    (case (it, item_tetId it) of
       (Some a, Some tetId) \<Rightarrow> build_idToActor rest (m(tetId \<mapsto> a))
     | _ \<Rightarrow> build_idToActor rest m)"

text \<open>
  The body of the enforcement loop for one tracked entry whose actor was found.
  It returns the entry, the session state, the pending fence opens and the effects.
\<close>

definition enforce_entry ::
  "(('f \<times> 'f \<times> 'f) \<Rightarrow> ('f \<times> 'f \<times> 'f) \<Rightarrow> bool) \<Rightarrow> ItemMapping \<Rightarrow> (int \<Rightarrow> effect list) option \<Rightarrow>
   ('f \<times> 'f \<times> 'f) option \<Rightarrow> (string \<rightharpoonup> string) \<Rightarrow> 'f actor \<Rightarrow> string \<Rightarrow> 'f TrackedTetromino \<Rightarrow>
   ModState \<Rightarrow> PendingFenceOpen list \<Rightarrow>
   'f TrackedTetromino \<times> ModState \<times> PendingFenceOpen list \<times> effect list" where
  "enforce_entry within_radius itemMapping locationCheckCallback playerPos fenceMap a tetId tt st pending =
    (if ShouldBeCollectable st tetId then
       (let retry = (0 < visRetries tt);
            effs1 = (if retry \<and> hidden_at_retry a then [CallSetActorVisible tetId] else []);
            tt1 = (if retry then tt\<lparr>visRetries := visRetries tt - 1\<rparr> else tt)
        in case playerPos of
             Some p \<Rightarrow>
               if hasPosition tt1 \<and> \<not> reported tt1 \<and> \<not> hidden_at_pickup a \<and>
                  within_radius p (tt_x tt1, tt_y tt1, tt_z tt1)
               then
                 (let tt2 = tt1\<lparr>reported := True\<rparr>;
                      st2 = MarkLocationChecked tetId st;
                      locId = GetLocationId itemMapping tetId;
                      effs2 = (case locationCheckCallback of
                                 None \<Rightarrow> []
                               | Some cb \<Rightarrow>
                                   if locId \<ge> 0 then LocationCheckCallback locId # cb locId else [])
                  in case OpenFenceForTetromino fenceMap tetId pending of
                       (pending2, effs3) \<Rightarrow>
                         (tt2, st2, pending2, effs1 @ [CallSetActorHidden tetId] @ effs2 @ effs3))
               else (tt1, st, pending, effs1)
           | None \<Rightarrow> (tt1, st, pending, effs1))
     else if IsLocationChecked st tetId then (tt, st, pending, [CallSetActorHidden tetId])
     else (tt, st, pending, []))"

fun enforce_entries ::
  "(('f \<times> 'f \<times> 'f) \<Rightarrow> ('f \<times> 'f \<times> 'f) \<Rightarrow> bool) \<Rightarrow> ItemMapping \<Rightarrow> (int \<Rightarrow> effect list) option \<Rightarrow>
   ('f \<times> 'f \<times> 'f) option \<Rightarrow> (string \<rightharpoonup> string) \<Rightarrow> (string \<rightharpoonup> 'f actor) \<Rightarrow>
   (string \<times> 'f TrackedTetromino) list \<Rightarrow> ModState \<Rightarrow> PendingFenceOpen list \<Rightarrow>
   (string \<times> 'f TrackedTetromino) list \<times> ModState \<times> PendingFenceOpen list \<times> effect list" where
  "enforce_entries within_radius itemMapping cb playerPos fenceMap idToActor [] st pending =
    ([], st, pending, [])"
| "enforce_entries within_radius itemMapping cb playerPos fenceMap idToActor ((tetId, tt) # rest) st pending =
    (case idToActor tetId of
       None \<Rightarrow>
         (case enforce_entries within_radius itemMapping cb playerPos fenceMap idToActor rest st pending of
            (rest', st', pending', effs') \<Rightarrow> ((tetId, tt) # rest', st', pending', effs'))
     | Some a \<Rightarrow>
         (case enforce_entry within_radius itemMapping cb playerPos fenceMap a tetId tt st pending of
            (tt1, st1, pending1, effs1) \<Rightarrow>
              (case enforce_entries within_radius itemMapping cb playerPos fenceMap idToActor rest st1 pending1 of
                 (rest', st', pending', effs') \<Rightarrow>
                   ((tetId, tt1) # rest', st', pending', effs1 @ effs'))))"

definition EnforceVisibility ::
  "(('f \<times> 'f \<times> 'f) \<Rightarrow> ('f \<times> 'f \<times> 'f) \<Rightarrow> bool) \<Rightarrow> 'f world \<Rightarrow> ItemMapping \<Rightarrow>
   (int \<Rightarrow> effect list) option \<Rightarrow> ModState \<Rightarrow> 'f VisibilityManager \<Rightarrow>
   ModState \<times> 'f VisibilityManager \<times> effect list" where
  "EnforceVisibility within_radius w itemMapping locationCheckCallback st vm =
    (if m_tracked vm = [] then (st, vm, [])
     else case find_items w of
            None \<Rightarrow> (st, vm, [])
          | Some items \<Rightarrow>
              (case enforce_entries within_radius itemMapping locationCheckCallback (player_position w)
                      (m_fenceMap vm) (build_idToActor items Map.empty) (m_tracked vm) st
                      (m_pendingFenceOpens vm) of
                 (tracked, st', pending, effs) \<Rightarrow>
                   (st', vm\<lparr>m_tracked := tracked, m_pendingFenceOpens := pending\<rparr>, effs)))"

definition ResetCache :: "'f VisibilityManager \<Rightarrow> 'f VisibilityManager" where
  "ResetCache vm = vm\<lparr>m_tracked := [], m_fenceMap := Map.empty, m_pendingFenceOpens := []\<rparr>"

subsection \<open>The fence retry queue\<close>

text \<open>
  The search for the fence of one pending entry among the result of
  \<open>FindAllOf("LoweringFence")\<close>: null pointers are skipped, an exception from
  \<open>GetFullName\<close> or from \<open>ProcessEvent\<close> is swallowed and the search goes on. The result
  says whether \<open>Open\<close> was called and returned.
\<close>

fun try_open_fence :: "string \<Rightarrow> fence_actor option list \<Rightarrow> bool \<times> effect list" where
  "try_open_fence name [] = (False, [])"
| "try_open_fence name (None # fences) = try_open_fence name fences"
| "try_open_fence name (Some fence # fences) =
    (if full_name fence = Some name then
       (if open_returns fence then (True, [CallFenceOpen name])
        else (case try_open_fence name fences of (opened, effs) \<Rightarrow> (opened, CallFenceOpen name # effs)))
     else try_open_fence name fences)"

text \<open>The loop over the pending entries; \<open>k\<close> counts the entries of the pass.\<close>

fun process_pending ::
  "(nat \<Rightarrow> fence_actor option list option) \<Rightarrow> nat \<Rightarrow> PendingFenceOpen list \<Rightarrow>
   PendingFenceOpen list \<times> effect list" where
  "process_pending fences k [] = ([], [])"
| "process_pending fences k (entry # rest) =
    (case (case fences k of None \<Rightarrow> (False, []) | Some fs \<Rightarrow> try_open_fence (fenceFullName entry) fs) of
       (opened, effs) \<Rightarrow>
         (case process_pending fences (Suc k) rest of
            (remaining, effs') \<Rightarrow>
              if opened
              then (remaining, effs @ [LogFenceOpened (pending_tetId entry) (attempts entry + 1)] @ effs')
              else if attempts entry + 1 < 10
              then (entry\<lparr>attempts := attempts entry + 1\<rparr> # remaining,
                    effs @ [LogFenceRetry (attempts entry + 1) (pending_tetId entry)] @ effs')
              else (remaining, effs @ [LogFenceGaveUp (pending_tetId entry)] @ effs')))"

definition ProcessPendingFenceOpens ::
  "'f world \<Rightarrow> 'f VisibilityManager \<Rightarrow> 'f VisibilityManager \<times> effect list" where
  "ProcessPendingFenceOpens w vm =
    (if m_pendingFenceOpens vm = [] then (vm, [])
     else if \<not> m_fnFenceOpen vm \<and> \<not> open_function_found w then (vm, [LogNoFenceOpenFunction])
     else (case process_pending (find_fences w) 0 (m_pendingFenceOpens vm) of
             (remaining, effs) \<Rightarrow>
               (vm\<lparr>m_fnFenceOpen := True, m_pendingFenceOpens := remaining\<rparr>, effs)))"

section \<open>The tick (dllmain.cpp)\<close>

text \<open>
  The mod object. The two \<open>unique_ptr\<close>s are options. The HUD, the debug keys and the
  inventory synchronisation (\<open>FindProgressObject\<close>, \<open>EnforceCollectionState\<close>, which work
  on the progress object only) are left out of the tick.
\<close>

record 'f Mod =
  m_state :: ModState
  m_itemMapping :: "ItemMapping option"
  m_apClient :: "APClientWrapper option"
  m_visibilityManager :: "'f VisibilityManager"
  m_tickCount :: "64 word"
  m_shuttingDown :: bool

text \<open>
  What one tick receives from outside: the network events delivered by \<open>poll()\<close>, and the
  game world as each of the four passes finds it.
\<close>

record 'f tick_input =
  net_events :: "net_event list"
  scan_world :: "'f world"
  enforce_world :: "'f world"
  refresh_world :: "'f world"
  fence_world :: "'f world"

text \<open>
  \<open>m_apClient->Poll()\<close>. The wrapper points to \<open>m_state\<close> and to the mapping it was
  initialised with; \<open>on_unreal_init\<close> creates the mapping before the wrapper, so a wrapper
  without a mapping does not occur.
\<close>

definition poll_step :: "'f tick_input \<Rightarrow> 'f Mod \<Rightarrow> 'f Mod \<times> effect list" where
  "poll_step inp m =
    (case (m_apClient m, m_itemMapping m) of
       (Some c, Some M) \<Rightarrow>
         if has_ap c
         then (case Poll (net_events inp) \<lparr>s_client = c, s_state = m_state m, s_mapping = M\<rparr> of
                 (s', effs) \<Rightarrow>
                   (m\<lparr>m_state := s_state s', m_itemMapping := Some (s_mapping s'),
                      m_apClient := Some (s_client s')\<rparr>, effs))
         else (m, [])
     | _ \<Rightarrow> (m, []))"

definition scan_step :: "('f::zero) tick_input \<Rightarrow> 'f Mod \<Rightarrow> 'f Mod \<times> effect list" where
  "scan_step inp m =
    (if NeedsTetrominoScan (m_state m)
     then (let st = (m_state m)\<lparr>NeedsTetrominoScan := False\<rparr>
           in case ScanLevel (scan_world inp) st (ResetCache (m_visibilityManager m)) of
                (vm, effs) \<Rightarrow> (m\<lparr>m_state := st, m_visibilityManager := vm\<rparr>, effs))
     else (m, []))"

text \<open>The lambda handed to \<open>EnforceVisibility\<close>.\<close>

definition location_check_lambda :: "APClientWrapper option \<Rightarrow> int \<Rightarrow> effect list" where
  "location_check_lambda apClient locationId =
    (case apClient of None \<Rightarrow> [] | Some c \<Rightarrow> SendLocationCheck c locationId)"

definition enforce_step ::
  "(('f \<times> 'f \<times> 'f) \<Rightarrow> ('f \<times> 'f \<times> 'f) \<Rightarrow> bool) \<Rightarrow> 'f tick_input \<Rightarrow> 'f Mod \<Rightarrow> 'f Mod \<times> effect list" where
  "enforce_step within_radius inp m =
    (case m_itemMapping m of
       Some M \<Rightarrow>
         if APSynced (m_state m) \<and> unat (m_tickCount m) mod 5 = 0
         then (case EnforceVisibility within_radius (enforce_world inp) M
                      (Some (location_check_lambda (m_apClient m))) (m_state m) (m_visibilityManager m) of
                 (st, vm, effs) \<Rightarrow> (m\<lparr>m_state := st, m_visibilityManager := vm\<rparr>, effs))
         else (m, [])
     | None \<Rightarrow> (m, []))"

definition refresh_step :: "('f::zero) tick_input \<Rightarrow> 'f Mod \<Rightarrow> 'f Mod \<times> effect list" where
  "refresh_step inp m =
    (if unat (m_tickCount m) mod 60 = 0
     then (case RefreshVisibility (refresh_world inp) (m_state m) (m_visibilityManager m) of
             (vm, effs) \<Rightarrow> (m\<lparr>m_visibilityManager := vm\<rparr>, effs))
     else (m, []))"

definition fence_step :: "'f tick_input \<Rightarrow> 'f Mod \<Rightarrow> 'f Mod \<times> effect list" where
  "fence_step inp m =
    (if unat (m_tickCount m) mod 6 = 0
     then (case ProcessPendingFenceOpens (fence_world inp) (m_visibilityManager m) of
             (vm, effs) \<Rightarrow> (m\<lparr>m_visibilityManager := vm\<rparr>, effs))
     else (m, []))"

text \<open>The game-thread work of a tick that is not in a level transition.\<close>

definition update_passes ::
  "(('f \<times> 'f \<times> 'f) \<Rightarrow> ('f \<times> 'f \<times> 'f) \<Rightarrow> bool) \<Rightarrow> ('f::zero) tick_input \<Rightarrow> 'f Mod \<Rightarrow> 'f Mod \<times> effect list" where
  "update_passes within_radius inp m =
    (let m0 = m\<lparr>m_state := (m_state m)\<lparr>NeedsProgressRefresh := False\<rparr>\<rparr>
     in case scan_step inp m0 of (m1, effs1) \<Rightarrow>
        (case enforce_step within_radius inp m1 of (m2, effs2) \<Rightarrow>
         (case refresh_step inp m2 of (m3, effs3) \<Rightarrow>
          (case fence_step inp m3 of (m4, effs4) \<Rightarrow>
             (m4, effs1 @ effs2 @ effs3 @ effs4)))))"

definition on_update ::
  "(('f \<times> 'f \<times> 'f) \<Rightarrow> ('f \<times> 'f \<times> 'f) \<Rightarrow> bool) \<Rightarrow> ('f::zero) tick_input \<Rightarrow> 'f Mod \<Rightarrow> 'f Mod \<times> effect list" where
  "on_update within_radius inp m =
    (if m_shuttingDown m then (m, [])
     else case poll_step inp (m\<lparr>m_tickCount := m_tickCount m + 1\<rparr>) of
            (m1, effs0) \<Rightarrow>
              if 0 < LevelTransitionCooldown (m_state m1)
              then (m1\<lparr>m_state := (m_state m1)\<lparr>LevelTransitionCooldown :=
                           LevelTransitionCooldown (m_state m1) - 1\<rparr>\<rparr>, effs0)
              else (case update_passes within_radius inp m1 of
                      (m2, effs) \<Rightarrow> (m2, effs0 @ effs)))"


section \<open>Notions used to state the properties of the engine\<close>

text \<open>The location ids handed to the protocol library in \<open>LocationChecks\<close> messages.\<close>

fun sent_locations :: "effect list \<Rightarrow> int list" where
  "sent_locations [] = []"
| "sent_locations (SendLocationChecks ids # effs) = ids @ sent_locations effs"
| "sent_locations (e # effs) = sent_locations effs"

text \<open>The location ids with which the location-check callback was invoked.\<close>

fun callback_locations :: "effect list \<Rightarrow> int list" where
  "callback_locations [] = []"
| "callback_locations (LocationCheckCallback locId # effs) = locId # callback_locations effs"
| "callback_locations (e # effs) = callback_locations effs"

text \<open>The calls that force an actor visible or hidden.\<close>

fun visibility_calls :: "effect list \<Rightarrow> effect list" where
  "visibility_calls [] = []"
| "visibility_calls (CallSetActorVisible tetId # effs) = CallSetActorVisible tetId # visibility_calls effs"
| "visibility_calls (CallSetActorHidden tetId # effs) = CallSetActorHidden tetId # visibility_calls effs"
| "visibility_calls (e # effs) = visibility_calls effs"

text \<open>The mod after the tick counter was incremented and the client was polled.\<close>

definition after_poll :: "'f tick_input \<Rightarrow> 'f Mod \<Rightarrow> 'f Mod" where
  "after_poll inp m = fst (poll_step inp (m\<lparr>m_tickCount := m_tickCount m + 1\<rparr>))"

text \<open>The events that run the slot-connected handler.\<close>

fun is_slot_connected :: "net_event \<Rightarrow> bool" where
  "is_slot_connected (SlotConnected playerNumber teamNumber serverChecked reusable) = True"
| "is_slot_connected ev = False"

text \<open>
  The slot-connected events whose handler is left by the exception of \<open>get<int>()\<close>, after
  it has sent the locally checked locations and before it sets \<open>APSynced\<close>.
\<close>

fun slot_data_throws :: "net_event \<Rightarrow> bool" where
  "slot_data_throws (SlotConnected playerNumber teamNumber serverChecked FieldWrongType) = True"
| "slot_data_throws ev = False"




text \<open>Successive passes of the fence retry queue, each with its own view of the world.\<close>

fun fence_passes :: "'f world list \<Rightarrow> 'f VisibilityManager \<Rightarrow> 'f VisibilityManager \<times> effect list" where
  "fence_passes [] vm = (vm, [])"
| "fence_passes (w # ws) vm =
    (case ProcessPendingFenceOpens w vm of
       (vm1, effs1) \<Rightarrow> (case fence_passes ws vm1 of (vm2, effs2) \<Rightarrow> (vm2, effs1 @ effs2)))"

subsection \<open>Invariants of a session\<close>

text \<open>
  The following notions are used in the proofs only: checked locations are never
  removed, a callback is invoked only for a known entity that was not checked, the
  mapping keeps its tables, and every tracked entry with the \<open>reported\<close> flag is a
  checked location. The last one holds as long as no save-game hook runs; after such a
  hook it holds again once the pending rescan has rebuilt the tracked set.
\<close>

definition reported_are_checked :: "ModState \<Rightarrow> (string \<times> 'f TrackedTetromino) list \<Rightarrow> bool" where
  "reported_are_checked st tracked =
     (\<forall>(tetId, tt) \<in> set tracked. reported tt \<longrightarrow> Dlist.member (CheckedLocations st) tetId)"

definition checked_grows :: "ModState \<Rightarrow> ModState \<Rightarrow> bool" where
  "checked_grows st st' =
     (\<forall>y. Dlist.member (CheckedLocations st) y \<longrightarrow> Dlist.member (CheckedLocations st') y)"




subsection \<open>The fence queue seen from one tetromino\<close>

text \<open>
  \<open>find_and_open\<close> is the body of the \<open>try\<close> block of one pending entry, that is the
  attempt to resolve its fence among the actors found and to open it. \<open>entries_of\<close> are
  the pending entries of a tetromino, \<open>fence_logs\<close> the log lines of the retry loop that
  name it, and \<open>retry_log\<close> the line the loop writes for an entry that was not opened and
  whose counter has reached \<open>i\<close>.
\<close>

definition find_and_open :: "fence_actor option list option \<Rightarrow> string \<Rightarrow> bool \<times> effect list" where
  "find_and_open found name =
    (case found of None \<Rightarrow> (False, []) | Some fs \<Rightarrow> try_open_fence name fs)"

definition entries_of :: "string \<Rightarrow> PendingFenceOpen list \<Rightarrow> PendingFenceOpen list" where
  "entries_of t pending = filter (\<lambda>e. pending_tetId e = t) pending"

fun is_fence_log :: "string \<Rightarrow> effect \<Rightarrow> bool" where
  "is_fence_log t (LogFenceRetry n s) = (s = t)"
| "is_fence_log t (LogFenceGaveUp s) = (s = t)"
| "is_fence_log t (LogFenceOpened s n) = (s = t)"
| "is_fence_log t _ = False"

definition fence_logs :: "string \<Rightarrow> effect list \<Rightarrow> effect list" where
  "fence_logs t effs = filter (is_fence_log t) effs"

definition retry_log :: "string \<Rightarrow> int \<Rightarrow> effect" where
  "retry_log t i = (if i < 10 then LogFenceRetry i t else LogFenceGaveUp t)"

section \<open>Example configurations\<close>

text \<open>
  A level with one item, the green J tetromino number 1 (\<open>DJ1\<close>), at the position of the
  player; a tick without network events in that level; a mod object in that level, with
  the synchronisation flag, the pending scan and the tick counter as given; a client
  that has checked \<open>DJ1\<close> locally and is about to receive the slot data; and a distance
  test under which the player is within reach of everything.
\<close>

definition example_actor :: "int actor" where
  "example_actor =
    \<lparr>instance_info = Some (1, 2, 1), position = Some (0, 0, 0),
     hidden_at_retry = False, hidden_at_pickup = False\<rparr>"

definition example_world :: "int world" where
  "example_world =
    \<lparr>find_items = Some [Some example_actor], player_position = Some (0, 0, 0),
     built_fence_map = Map.empty, open_function_found = True, find_fences = (\<lambda>k. Some [])\<rparr>"

definition example_input :: "int tick_input" where
  "example_input =
    \<lparr>net_events = [], scan_world = example_world, enforce_world = example_world,
     refresh_world = example_world, fence_world = example_world\<rparr>"

definition example_mod :: "bool \<Rightarrow> bool \<Rightarrow> 64 word \<Rightarrow> int Mod" where
  "example_mod synced scan tick =
    \<lparr>m_state = ModState_init\<lparr>LevelTransitionCooldown := 0, APSynced := synced, NeedsTetrominoScan := scan\<rparr>,
     m_itemMapping = Some constructed_mapping,
     m_apClient = Some \<lparr>has_ap = True, m_connected = synced, m_slotConnected = synced,
                        m_playerSlot = 1, m_teamNumber = 0\<rparr>,
     m_visibilityManager = VisibilityManager_init, m_tickCount = tick, m_shuttingDown = False\<rparr>"


definition always_near :: "int \<times> int \<times> int \<Rightarrow> int \<times> int \<times> int \<Rightarrow> bool" where
  "always_near p q = True"


text \<open>
  A level in which \<open>FindAllOf("LoweringFence")\<close> finds no fence at all, with the \<open>Open\<close>
  function found or not, and a queue holding one fresh entry.
\<close>

definition no_fences :: "nat \<Rightarrow> fence_actor option list option" where
  "no_fences k = Some []"

definition fence_world_example :: "bool \<Rightarrow> int world" where
  "fence_world_example found =
    \<lparr>find_items = None, player_position = None, built_fence_map = Map.empty,
     open_function_found = found, find_fences = no_fences\<rparr>"

definition pending_example :: PendingFenceOpen where
  "pending_example = \<lparr>pending_tetId = ''DJ1'', fenceFullName = ''Fence_DJ1'', attempts = 0\<rparr>"

definition queue_example :: "int VisibilityManager" where
  "queue_example = VisibilityManager_init\<lparr>m_pendingFenceOpens := [pending_example]\<rparr>"

section \<open>Properties of item resolution\<close>

subsection \<open>Single calls and replays\<close>

lemma ResolveNextItem_unknown_id:
  "m_apItemIdToPrefix M apItemId = None \<Longrightarrow> ResolveNextItem M apItemId = (Inr None, M)"
  by (simp add: ResolveNextItem_def)

lemma ResolveNextItem_no_sequence:
  "m_apItemIdToPrefix M apItemId = Some prefix \<Longrightarrow>
   map_of (m_tetrominoSequences M) prefix = None \<or> map_of (m_tetrominoSequences M) prefix = Some [] \<Longrightarrow>
   ResolveNextItem M apItemId = (Inr None, M)"
  by (auto simp: ResolveNextItem_def)

lemma replay_Cons:
  "replay M (i # ids) =
     (fst (ResolveNextItem M i) # fst (replay (snd (ResolveNextItem M i)) ids),
      snd (replay (snd (ResolveNextItem M i)) ids))"
  by (simp split: prod.split)

lemma sint_of_nat_small: "n < 2 ^ 31 \<Longrightarrow> sint (word_of_nat n :: 32 word) = int n"
  by (simp add: signed_of_nat signed_take_bit_int_eq_self)

lemma ResolveNextItem_tables: "same_tables (snd (ResolveNextItem M i)) M"
  by (simp add: ResolveNextItem_def same_tables_def Let_def split: option.split)

lemma same_tables_sym: "same_tables M M' \<Longrightarrow> same_tables M' M"
  by (simp add: same_tables_def)

lemma same_tables_trans: "same_tables M M' \<Longrightarrow> same_tables M' M'' \<Longrightarrow> same_tables M M''"
  by (simp add: same_tables_def)

lemma same_tables_sequence_of: "same_tables M M' \<Longrightarrow> sequence_of M p = sequence_of M' p"
  by (simp add: same_tables_def sequence_of_def)

lemma same_tables_family_grants: "same_tables M M' \<Longrightarrow> family_grants M p ids = family_grants M' p ids"
  by (simp add: same_tables_def family_grants_def)

lemma replay_tables: "same_tables (snd (replay M ids)) M"
proof (induction ids arbitrary: M)
  case Nil
  show ?case by (simp add: same_tables_def)
next
  case (Cons i ids)
  have "same_tables (snd (replay (snd (ResolveNextItem M i)) ids)) (snd (ResolveNextItem M i))"
    by (rule Cons.IH)
  then have "same_tables (snd (replay (snd (ResolveNextItem M i)) ids)) M"
    using ResolveNextItem_tables same_tables_trans by blast
  then show ?case by (simp only: replay_Cons snd_conv)
qed

text \<open>One call: the counter of the family moves by one exactly when both lookups succeed.\<close>

lemma ResolveNextItem_count:
  "received_count (snd (ResolveNextItem M i)) p =
     received_count M p + (if m_apItemIdToPrefix M i = Some p \<and> sequence_of M p \<noteq> [] then 1 else 0)"
  by (auto simp: ResolveNextItem_def received_count_def sequence_of_def Let_def split: option.split)

lemma replay_count:
  "sequence_of M p \<noteq> [] \<Longrightarrow>
   received_count (snd (replay M ids)) p = received_count M p + word_of_nat (family_grants M p ids)"
proof (induction ids arbitrary: M)
  case Nil
  show ?case by (simp add: family_grants_def)
next
  case (Cons i ids)
  let ?M1 = "snd (ResolveNextItem M i)"
  have t: "same_tables ?M1 M" by (rule ResolveNextItem_tables)
  have s: "sequence_of ?M1 p \<noteq> []" using Cons.prems same_tables_sequence_of [OF t] by simp
  have "received_count (snd (replay ?M1 ids)) p = received_count ?M1 p + word_of_nat (family_grants ?M1 p ids)"
    by (rule Cons.IH [OF s])
  also have "family_grants ?M1 p ids = family_grants M p ids"
    by (rule same_tables_family_grants [OF t])
  finally show ?case using Cons.prems
    by (simp add: replay_Cons ResolveNextItem_count family_grants_def del: replay.simps)
qed

lemma replay_count_empty:
  "sequence_of M p = [] \<Longrightarrow> received_count (snd (replay M ids)) p = received_count M p"
proof (induction ids arbitrary: M)
  case Nil
  show ?case by simp
next
  case (Cons i ids)
  let ?M1 = "snd (ResolveNextItem M i)"
  have t: "same_tables ?M1 M" by (rule ResolveNextItem_tables)
  have s: "sequence_of ?M1 p = []" using Cons.prems same_tables_sequence_of [OF t] by simp
  show ?case using Cons.IH [OF s] Cons.prems
    by (simp add: replay_Cons ResolveNextItem_count del: replay.simps)
qed

text \<open>The result of one call from a counter that has not wrapped.\<close>

lemma ResolveNextItem_result:
  assumes "m_apItemIdToPrefix M i = Some p"
    and "received_count M p = word_of_nat g" and "g < 2 ^ 31 - 1"
    and "length (sequence_of M p) < 2 ^ 31"
  shows "fst (ResolveNextItem M i) =
           (if g < length (sequence_of M p) then Inr (Some (sequence_of M p ! g)) else Inr None)"
proof (cases "sequence_of M p = []")
  case True
  then show ?thesis using assms(1)
    by (auto simp: ResolveNextItem_def sequence_of_def split: option.split)
next
  case False
  have c: "sint (word_of_nat g + 1 :: 32 word) = int g + 1"
  proof -
    have "word_of_nat g + (1 :: 32 word) = word_of_nat (Suc g)" by simp
    then show ?thesis using sint_of_nat_small [of "Suc g"] assms(3) by (simp add: add.commute)
  qed
  have l: "sint (word_of_nat (length (sequence_of M p)) :: 32 word) = int (length (sequence_of M p))"
    using assms(4) by (rule sint_of_nat_small)
  from False obtain seq where seq: "map_of (m_tetrominoSequences M) p = Some seq" "seq \<noteq> []"
    by (auto simp: sequence_of_def split: option.splits)
  then have so: "sequence_of M p = seq" by (simp add: sequence_of_def)
  show ?thesis using assms(1) seq c l assms(2)
    by (auto simp: ResolveNextItem_def Let_def so)
qed

lemma replay_append:
  "replay M (xs @ ys) = (fst (replay M xs) @ fst (replay (snd (replay M xs)) ys), snd (replay (snd (replay M xs)) ys))"
  by (induction xs arbitrary: M) (simp_all add: replay_Cons del: replay.simps(2))

lemma replay_length: "length (fst (replay M ids)) = length ids"
  by (induction ids arbitrary: M) (simp_all add: replay_Cons del: replay.simps(2))

lemma replay_nth:
  assumes "j < length ids"
  shows "fst (replay M ids) ! j = fst (ResolveNextItem (snd (replay M (take j ids))) (ids ! j))"
proof -
  have ids: "ids = take j ids @ (ids ! j) # drop (Suc j) ids"
    using assms by (simp add: id_take_nth_drop)
  have "fst (replay M ids) ! j = fst (replay M (take j ids @ (ids ! j) # drop (Suc j) ids)) ! j"
    using ids by simp
  also have "\<dots> = fst (replay (snd (replay M (take j ids))) ((ids ! j) # drop (Suc j) ids)) ! 0"
    using assms by (simp add: replay_append nth_append replay_length)
  also have "\<dots> = fst (ResolveNextItem (snd (replay M (take j ids))) (ids ! j))"
    by (simp add: replay_Cons del: replay.simps(2))
  finally show ?thesis .
qed

lemma ResetItemCounters_tables: "same_tables (ResetItemCounters M) M"
  by (simp add: ResetItemCounters_def same_tables_def)

lemma ResetItemCounters_count: "received_count (ResetItemCounters M) p = 0"
  by (simp add: ResetItemCounters_def received_count_def)

lemma ResetItemCounters_same_tables:
  "same_tables M M' \<Longrightarrow> ResetItemCounters M = ResetItemCounters M'"
  by (cases M, cases M') (simp add: same_tables_def ResetItemCounters_def)

lemma ResetItemCounters_fresh: "m_receivedCounts M = Map.empty \<Longrightarrow> ResetItemCounters M = M"
  by (cases M) (simp add: ResetItemCounters_def)

lemma replay_snoc:
  "snd (replay M (ids @ [i])) = snd (ResolveNextItem (snd (replay M ids)) i)"
  by (simp add: replay_append replay_Cons del: replay.simps(2))

lemma grants_since_reset_length: "length (grants_since_reset calls) \<le> length calls"
proof (induction calls rule: rev_induct)
  case Nil
  show ?case by (simp add: grants_since_reset_def)
next
  case (snoc c calls)
  then show ?case by (cases c) (simp_all add: grants_since_reset_def)
qed

text \<open>A fresh object after any calls is the replay of the grants since the last reset.\<close>

lemma run_calls_replay:
  assumes "m_receivedCounts M = Map.empty"
  shows "run_calls M calls = snd (replay M (grants_since_reset calls))"
proof (induction calls rule: rev_induct)
  case Nil
  show ?case by (simp add: run_calls_def grants_since_reset_def)
next
  case (snoc c calls)
  show ?case
  proof (cases c)
    case (CallResolve i)
    have "run_calls M (calls @ [c]) = snd (ResolveNextItem (run_calls M calls) i)"
      by (simp add: run_calls_def CallResolve)
    also have "\<dots> = snd (replay M (grants_since_reset calls @ [i]))"
      by (simp only: snoc.IH replay_snoc)
    also have "grants_since_reset calls @ [i] = grants_since_reset (calls @ [c])"
      by (simp add: grants_since_reset_def CallResolve)
    finally show ?thesis .
  next
    case CallReset
    have "run_calls M (calls @ [c]) = ResetItemCounters (snd (replay M (grants_since_reset calls)))"
      using snoc.IH by (simp add: run_calls_def CallReset)
    also have "\<dots> = ResetItemCounters M"
      by (rule ResetItemCounters_same_tables) (rule replay_tables)
    also have "\<dots> = M" using assms by (rule ResetItemCounters_fresh)
    finally show ?thesis by (simp add: grants_since_reset_def CallReset)
  qed
qed

text \<open>The counter after a replay from zero, and the result of the next call.\<close>

lemma replay_count_from_zero:
  assumes "received_count M p = 0"
  shows "received_count (snd (replay M ids)) p =
           (if sequence_of M p = [] then 0 else word_of_nat (family_grants M p ids))"
  using assms replay_count [of M p ids] replay_count_empty [of M p ids] by simp

lemma replay_next_result:
  assumes "received_count M p = 0" and "m_apItemIdToPrefix M i = Some p"
    and "length ids < 2 ^ 31 - 1" and "length (sequence_of M p) < 2 ^ 31"
  shows "fst (ResolveNextItem (snd (replay M ids)) i) =
           (if family_grants M p ids < length (sequence_of M p)
            then Inr (Some (sequence_of M p ! family_grants M p ids)) else Inr None)"
proof -
  let ?M' = "snd (replay M ids)"
  have t: "same_tables ?M' M" by (rule replay_tables)
  have pre: "m_apItemIdToPrefix ?M' i = Some p" using t assms(2) by (simp add: same_tables_def)
  have so: "sequence_of ?M' p = sequence_of M p" by (rule same_tables_sequence_of [OF t])
  show ?thesis
  proof (cases "sequence_of M p = []")
    case True
    then have "map_of (m_tetrominoSequences ?M') p = None \<or> map_of (m_tetrominoSequences ?M') p = Some []"
      using so by (auto simp: sequence_of_def split: option.splits)
    from ResolveNextItem_no_sequence [OF pre this] True show ?thesis by simp
  next
    case False
    have c: "received_count ?M' p = word_of_nat (family_grants M p ids)"
      using replay_count_from_zero [OF assms(1)] False by simp
    have "family_grants M p ids \<le> length ids" by (simp add: family_grants_def)
    then have g: "family_grants M p ids < 2 ^ 31 - 1" using assms(3) by simp
    have l: "length (sequence_of ?M' p) < 2 ^ 31" using so assms(4) by simp
    from ResolveNextItem_result [OF pre c g l] so show ?thesis by simp
  qed
qed

lemma family_grants_take_Suc:
  assumes "j < length ids" and "m_apItemIdToPrefix M (ids ! j) = Some p"
  shows "family_grants M p (take (Suc j) ids) = Suc (family_grants M p (take j ids))"
  using assms by (simp add: family_grants_def take_Suc_conv_app_nth)

text \<open>The result at position \<open>j\<close> of a replay from zero counters.\<close>

lemma replay_result_at:
  assumes "received_count M p = 0" and "j < length ids" and "length ids < 2 ^ 31"
    and "m_apItemIdToPrefix M (ids ! j) = Some p" and "length (sequence_of M p) < 2 ^ 31"
  shows "fst (replay M ids) ! j =
           (if family_grants M p (take (Suc j) ids) \<le> length (sequence_of M p)
            then Inr (Some (sequence_of M p ! (family_grants M p (take (Suc j) ids) - 1)))
            else Inr None)"
proof -
  have len: "length (take j ids) < 2 ^ 31 - 1" using assms(2,3) by simp
  have "fst (replay M ids) ! j = fst (ResolveNextItem (snd (replay M (take j ids))) (ids ! j))"
    using assms(2) by (rule replay_nth)
  also note replay_next_result [OF assms(1) assms(4) len assms(5)]
  finally show ?thesis
    using family_grants_take_Suc [OF assms(2) assms(4)] by (auto simp: less_Suc_eq_le)
qed

lemma family_grants_take_le: "family_grants M p (take n ids) \<le> family_grants M p ids"
proof -
  have "filter (\<lambda>i. m_apItemIdToPrefix M i = Some p) (take n ids @ drop n ids) =
        filter (\<lambda>i. m_apItemIdToPrefix M i = Some p) (take n ids) @
        filter (\<lambda>i. m_apItemIdToPrefix M i = Some p) (drop n ids)"
    by (rule filter_append)
  then have "length (filter (\<lambda>i. m_apItemIdToPrefix M i = Some p) ids) =
        length (filter (\<lambda>i. m_apItemIdToPrefix M i = Some p) (take n ids)) +
        length (filter (\<lambda>i. m_apItemIdToPrefix M i = Some p) (drop n ids))"
    by (simp only: append_take_drop_id length_append)
  then show ?thesis by (simp add: family_grants_def)
qed

lemma family_grants_of_family:
  assumes "k \<le> length (filter (\<lambda>i. m_apItemIdToPrefix M i = Some p) ids)"
  shows "family_grants M p (take k (filter (\<lambda>i. m_apItemIdToPrefix M i = Some p) ids)) = k"
proof -
  define fs where "fs = filter (\<lambda>i. m_apItemIdToPrefix M i = Some p) ids"
  have "m_apItemIdToPrefix M x = Some p" if "x \<in> set (take k fs)" for x
  proof -
    from that have "x \<in> set fs" by (rule in_set_takeD)
    then show ?thesis by (simp add: fs_def)
  qed
  then have "filter (\<lambda>i. m_apItemIdToPrefix M i = Some p) (take k fs) = take k fs"
    by (simp only: filter_id_conv) blast
  then have "family_grants M p (take k fs) = length (take k fs)"
    by (simp only: family_grants_def)
  also have "\<dots> = k" using assms by (simp add: fs_def)
  finally show ?thesis by (simp only: fs_def)
qed

subsection \<open>The tables the constructor builds\<close>

lemma assign_locations_append:
  "assign_locations (xs @ ys) idx n2i i2n =
     (case assign_locations xs idx n2i i2n of (idx', n2i', i2n') \<Rightarrow> assign_locations ys idx' n2i' i2n')"
  by (induction xs arbitrary: idx n2i i2n) (simp_all add: Let_def)

lemma assign_locations_inverse:
  assumes "inverse_tables n2i i2n" and "distinct names" and "set names \<inter> dom n2i = {}"
    and "\<forall>v \<in> dom i2n. BASE_LOCATION_ID \<le> v \<and> v < BASE_LOCATION_ID + idx" and "0 \<le> idx"
    and "assign_locations names idx n2i i2n = (idx', n2i', i2n')"
  shows "inverse_tables n2i' i2n' \<and> dom n2i' = dom n2i \<union> set names \<and> idx' = idx + int (length names) \<and>
         (\<forall>v \<in> dom i2n'. BASE_LOCATION_ID \<le> v \<and> v < BASE_LOCATION_ID + idx')"
  using assms
proof (induction names arbitrary: idx n2i i2n)
  case Nil
  then show ?case by simp
next
  case (Cons name rest)
  let ?v = "BASE_LOCATION_ID + idx"
  let ?n = "n2i(name \<mapsto> ?v)"
  let ?i = "i2n(?v \<mapsto> name)"
  have fresh_name: "n2i name = None" using Cons.prems(3) by auto
  have fresh_id: "i2n ?v = None"
  proof (rule ccontr)
    assume "i2n ?v \<noteq> None"
    then have "?v \<in> dom i2n" by auto
    with Cons.prems(4) have "?v < BASE_LOCATION_ID + idx" by blast
    then show False by simp
  qed
  have iff: "n2i a = Some b \<longleftrightarrow> i2n b = Some a" for a b
    using Cons.prems(1) by (simp add: inverse_tables_def)
  have inv: "inverse_tables ?n ?i"
    unfolding inverse_tables_def
  proof (intro allI)
    fix name' locId
    show "(?n name' = Some locId) = (?i locId = Some name')"
    proof (cases "name' = name")
      case True
      then show ?thesis using iff [of name locId] fresh_name by auto
    next
      case False
      then show ?thesis using iff [of name' locId] iff [of name' ?v] fresh_id by auto
    qed
  qed
  have d: "distinct rest" using Cons.prems(2) by simp
  have dis: "set rest \<inter> dom ?n = {}" using Cons.prems(2,3) by auto
  have rng: "\<forall>v \<in> dom ?i. BASE_LOCATION_ID \<le> v \<and> v < BASE_LOCATION_ID + (idx + 1)"
  proof
    fix v assume "v \<in> dom ?i"
    then have "v = ?v \<or> v \<in> dom i2n" by (auto split: if_splits)
    then show "BASE_LOCATION_ID \<le> v \<and> v < BASE_LOCATION_ID + (idx + 1)"
    proof
      assume "v = ?v"
      then show ?thesis using Cons.prems(5) by simp
    next
      assume "v \<in> dom i2n"
      with Cons.prems(4) have "BASE_LOCATION_ID \<le> v \<and> v < BASE_LOCATION_ID + idx" by blast
      then show ?thesis by simp
    qed
  qed
  have run: "assign_locations rest (idx + 1) ?n ?i = (idx', n2i', i2n')"
    using Cons.prems(6) by (simp add: Let_def)
  have "0 \<le> idx + 1" using Cons.prems(5) by simp
  note ih = Cons.IH [OF inv d dis rng this run]
  from ih have r1: "inverse_tables n2i' i2n'" by blast
  from ih have r2: "dom n2i' = dom ?n \<union> set rest" by blast
  from ih have r3: "idx' = idx + 1 + int (length rest)" by blast
  from ih have r4: "\<forall>v \<in> dom i2n'. BASE_LOCATION_ID \<le> v \<and> v < BASE_LOCATION_ID + idx'" by blast
  have "dom ?n = insert name (dom n2i)" by simp
  with r2 have "dom n2i' = dom n2i \<union> set (name # rest)" by simp
  moreover from r3 have "idx' = idx + int (length (name # rest))" by simp
  ultimately show ?case using r1 r4 by blast
qed

text \<open>The constructor evaluated on the static data.\<close>

lemma BuildSequences_value: "BuildSequences = Some built_sequences"
  by code_simp

lemma location_names_distinct: "distinct (ALL_TETROMINOES @ map starId ALL_STARS)"
  by code_simp

lemma prefixes_have_sequences:
  "list_all (\<lambda>(i, prefix). map_of built_sequences prefix \<noteq> None) apItemIdToPrefix_init"
  by code_simp

lemma sequences_numbered:
  "list_all (\<lambda>(prefix, seq). map number_key seq = map int [1..<Suc (length seq)]) built_sequences"
  by code_simp

lemma sequences_members:
  "list_all (\<lambda>(prefix, seq). list_all (\<lambda>t. t \<in> set ALL_TETROMINOES \<and> ExtractPrefix t = prefix) seq)
     built_sequences"
  by code_simp

lemma tetrominoes_in_sequences:
  "list_all (\<lambda>t. case map_of built_sequences (ExtractPrefix t) of Some seq \<Rightarrow> t \<in> set seq | None \<Rightarrow> False)
     ALL_TETROMINOES"
  by code_simp

lemma built_sequences_short: "list_all (\<lambda>(prefix, seq). length seq \<le> 12) built_sequences"
  by (simp add: built_sequences_def)

lemma ItemMapping_ctor_value:
  "ItemMapping_ctor =
     Some \<lparr>m_apItemIdToPrefix = map_of apItemIdToPrefix_init,
           m_tetrominoSequences = built_sequences,
           m_locationNameToId = fst (snd (assign_locations location_names 0 Map.empty Map.empty)),
           m_locationIdToName = snd (snd (assign_locations location_names 0 Map.empty Map.empty)),
           m_receivedCounts = Map.empty\<rparr>"
  by (simp add: ItemMapping_ctor_def BuildSequences_value location_names_def assign_locations_append
           split: prod.split)

lemma constructed_mapping_fields:
  "m_apItemIdToPrefix constructed_mapping = map_of apItemIdToPrefix_init"
  "m_tetrominoSequences constructed_mapping = built_sequences"
  "m_locationNameToId constructed_mapping = fst (snd (assign_locations location_names 0 Map.empty Map.empty))"
  "m_locationIdToName constructed_mapping = snd (snd (assign_locations location_names 0 Map.empty Map.empty))"
  "m_receivedCounts constructed_mapping = Map.empty"
  by (simp_all add: constructed_mapping_def ItemMapping_ctor_value)

lemma ItemMapping_ctor_returns: "ItemMapping_ctor = Some constructed_mapping"
  by (simp add: constructed_mapping_def ItemMapping_ctor_value)

lemma constructed_locations:
  "inverse_tables (m_locationNameToId constructed_mapping) (m_locationIdToName constructed_mapping)"
  "dom (m_locationNameToId constructed_mapping) = set location_names"
  "\<forall>v \<in> dom (m_locationIdToName constructed_mapping). BASE_LOCATION_ID \<le> v"
proof -
  obtain idx' n2i' i2n' where run: "assign_locations location_names 0 Map.empty Map.empty = (idx', n2i', i2n')"
    by (cases "assign_locations location_names 0 Map.empty Map.empty") auto
  have "inverse_tables Map.empty Map.empty" by (simp add: inverse_tables_def)
  moreover have "distinct location_names" using location_names_distinct by (simp add: location_names_def)
  moreover have "set location_names \<inter> dom (Map.empty :: string \<rightharpoonup> int) = {}" by simp
  moreover have "\<forall>v \<in> dom (Map.empty :: int \<rightharpoonup> string). BASE_LOCATION_ID \<le> v \<and> v < BASE_LOCATION_ID + 0" by simp
  moreover have "(0::int) \<le> 0" by simp
  ultimately have r: "inverse_tables n2i' i2n' \<and> dom n2i' = dom (Map.empty :: string \<rightharpoonup> int) \<union> set location_names \<and>
      idx' = 0 + int (length location_names) \<and> (\<forall>v \<in> dom i2n'. BASE_LOCATION_ID \<le> v \<and> v < BASE_LOCATION_ID + idx')"
    using run by (rule assign_locations_inverse)
  have f: "m_locationNameToId constructed_mapping = n2i'" "m_locationIdToName constructed_mapping = i2n'"
    by (simp_all add: constructed_mapping_fields run)
  show "inverse_tables (m_locationNameToId constructed_mapping) (m_locationIdToName constructed_mapping)"
    using r f by simp
  show "dom (m_locationNameToId constructed_mapping) = set location_names"
    using r f by simp
  show "\<forall>v \<in> dom (m_locationIdToName constructed_mapping). BASE_LOCATION_ID \<le> v"
    using r f by simp
qed

lemma inverse_tables_fwd: "inverse_tables n2i i2n \<Longrightarrow> n2i a = Some b \<Longrightarrow> i2n b = Some a"
  by (simp add: inverse_tables_def)

lemma inverse_tables_bwd: "inverse_tables n2i i2n \<Longrightarrow> i2n b = Some a \<Longrightarrow> n2i a = Some b"
  by (simp add: inverse_tables_def)

lemma inverse_tables_roundtrip:
  assumes "inverse_tables (m_locationNameToId M) (m_locationIdToName M)"
  shows "name \<in> dom (m_locationNameToId M) \<Longrightarrow> GetLocationName M (GetLocationId M name) = name"
    and "locId \<in> dom (m_locationIdToName M) \<Longrightarrow> GetLocationId M (GetLocationName M locId) = locId"
proof -
  assume "name \<in> dom (m_locationNameToId M)"
  then obtain v where v: "m_locationNameToId M name = Some v" by auto
  from inverse_tables_fwd [OF assms v] v
  show "GetLocationName M (GetLocationId M name) = name"
    by (simp add: GetLocationName_def GetLocationId_def)
next
  assume "locId \<in> dom (m_locationIdToName M)"
  then obtain a where a: "m_locationIdToName M locId = Some a" by auto
  from inverse_tables_bwd [OF assms a] a
  show "GetLocationId M (GetLocationName M locId) = locId"
    by (simp add: GetLocationName_def GetLocationId_def)
qed

lemma inverse_tables_inj:
  assumes "inverse_tables (m_locationNameToId M) (m_locationIdToName M)"
  shows "inj_on (GetLocationId M) (dom (m_locationNameToId M))"
    and "inj_on (GetLocationName M) (dom (m_locationIdToName M))"
proof -
  show "inj_on (GetLocationId M) (dom (m_locationNameToId M))"
    by (rule inj_on_inverseI [where g = "GetLocationName M"]) (rule inverse_tables_roundtrip(1) [OF assms])
  show "inj_on (GetLocationName M) (dom (m_locationIdToName M))"
    by (rule inj_on_inverseI [where g = "GetLocationId M"]) (rule inverse_tables_roundtrip(2) [OF assms])
qed

lemma inverse_tables_dom:
  assumes "inverse_tables (m_locationNameToId M) (m_locationIdToName M)"
  shows "GetLocationId M ` dom (m_locationNameToId M) = dom (m_locationIdToName M)"
proof (rule set_eqI, rule iffI)
  fix v assume "v \<in> GetLocationId M ` dom (m_locationNameToId M)"
  then obtain a b where ab: "m_locationNameToId M a = Some b" "v = GetLocationId M a" by auto
  then have "v = b" by (simp add: GetLocationId_def)
  with inverse_tables_fwd [OF assms ab(1)] show "v \<in> dom (m_locationIdToName M)" by auto
next
  fix v assume "v \<in> dom (m_locationIdToName M)"
  then obtain a where a: "m_locationIdToName M v = Some a" by auto
  from inverse_tables_bwd [OF assms a] have n: "m_locationNameToId M a = Some v" .
  then have "GetLocationId M a = v" by (simp add: GetLocationId_def)
  with n show "v \<in> GetLocationId M ` dom (m_locationNameToId M)" by force
qed

lemma constructed_sequence_short:
  assumes "same_tables M constructed_mapping"
  shows "length (sequence_of M p) < 2 ^ 31"
proof (cases "map_of built_sequences p")
  case None
  then show ?thesis using assms by (simp add: sequence_of_def same_tables_def constructed_mapping_fields)
next
  case (Some seq)
  then have "(p, seq) \<in> set built_sequences" by (rule map_of_SomeD)
  with built_sequences_short have "length seq \<le> 12" by (auto simp: list_all_iff)
  then show ?thesis using Some assms
    by (simp add: sequence_of_def same_tables_def constructed_mapping_fields)
qed

lemma reset_constructed:
  assumes "same_tables M constructed_mapping"
  shows "ResetItemCounters M = constructed_mapping"
proof -
  have "ResetItemCounters M = ResetItemCounters constructed_mapping"
    using assms by (rule ResetItemCounters_same_tables)
  also have "\<dots> = constructed_mapping"
    by (rule ResetItemCounters_fresh) (rule constructed_mapping_fields(5))
  finally show ?thesis .
qed

lemma constructed_count_zero: "received_count constructed_mapping p = 0"
  by (simp add: received_count_def constructed_mapping_fields)

lemma built_sequences_nonempty: "list_all (\<lambda>(prefix, seq). seq \<noteq> []) built_sequences"
  by (simp add: built_sequences_def)

text \<open>
  The sequence of a known family holds exactly the tetrominoes with that prefix, in
  strictly increasing order of their numbers.
\<close>

lemma constructed_sequence_family:
  assumes "same_tables M constructed_mapping" and "m_apItemIdToPrefix M i = Some p"
  shows "set (sequence_of M p) = {t \<in> set ALL_TETROMINOES. ExtractPrefix t = p}"
    and "sorted_wrt (\<lambda>a b. number_key a < number_key b) (sequence_of M p)"
    and "sequence_of M p \<noteq> []"
proof -
  have "map_of apItemIdToPrefix_init i = Some p"
    using assms by (simp add: same_tables_def constructed_mapping_fields)
  then have "(i, p) \<in> set apItemIdToPrefix_init" by (rule map_of_SomeD)
  with prefixes_have_sequences obtain seq where seq: "map_of built_sequences p = Some seq"
    by (auto simp: list_all_iff)
  then have mem: "(p, seq) \<in> set built_sequences" by (rule map_of_SomeD)
  have so: "sequence_of M p = seq"
    using seq assms(1) by (simp add: sequence_of_def same_tables_def constructed_mapping_fields)
  have sub: "t \<in> set ALL_TETROMINOES \<and> ExtractPrefix t = p" if "t \<in> set seq" for t
    using sequences_members mem that by (auto simp: list_all_iff)
  have sup: "t \<in> set seq" if "t \<in> set ALL_TETROMINOES" and "ExtractPrefix t = p" for t
  proof -
    from tetrominoes_in_sequences that(1)
    have "case map_of built_sequences (ExtractPrefix t) of Some s \<Rightarrow> t \<in> set s | None \<Rightarrow> False"
      by (simp add: list_all_iff)
    then show ?thesis using that(2) seq by simp
  qed
  show "set (sequence_of M p) = {t \<in> set ALL_TETROMINOES. ExtractPrefix t = p}"
    unfolding so using sub sup by blast
  have "map number_key seq = map int [1..<Suc (length seq)]"
    using sequences_numbered mem by (auto simp: list_all_iff)
  moreover have "sorted_wrt (<) (map int [1..<Suc (length seq)])"
  proof -
    have "sorted_wrt (<) [1..<Suc (length seq)]" by (rule sorted_wrt_upt)
    then show ?thesis by (simp only: sorted_wrt_map of_nat_less_iff)
  qed
  ultimately have "sorted_wrt (<) (map number_key seq)" by simp
  then show "sorted_wrt (\<lambda>a b. number_key a < number_key b) (sequence_of M p)"
    unfolding so by (simp add: sorted_wrt_map)
  show "sequence_of M p \<noteq> []"
    unfolding so using built_sequences_nonempty mem by (auto simp: list_all_iff)
qed


section \<open>The claims about item resolution and the location tables\<close>

text \<open>
  C10. \<open>ResolveNextItem\<close> is atomic on the unknown-identifier path: for an item id that
  is not in the item-id-to-prefix table, or whose prefix has no sequence or an empty one,
  the call returns \<open>std::nullopt\<close> and leaves the object, and with it every family's
  received counter, unchanged.
\<close>

theorem ResolveNextItem_unknown_atomic:
  assumes "m_apItemIdToPrefix M apItemId = None \<or>
           (\<exists>prefix. m_apItemIdToPrefix M apItemId = Some prefix \<and>
              (map_of (m_tetrominoSequences M) prefix = None \<or>
               map_of (m_tetrominoSequences M) prefix = Some []))"
  shows "fst (ResolveNextItem M apItemId) = Inr None
       \<and> snd (ResolveNextItem M apItemId) = M
       \<and> (\<forall>prefix. received_count (snd (ResolveNextItem M apItemId)) prefix = received_count M prefix)"
  using assms ResolveNextItem_unknown_id [of M apItemId] ResolveNextItem_no_sequence [of M apItemId]
  by auto

theorem ResolveNextItem_unknown_atomic_witness:
  "m_apItemIdToPrefix constructed_mapping 0x54FFFF = None
   \<and> ResolveNextItem constructed_mapping 0x54FFFF = (Inr None, constructed_mapping)
   \<and> ResolveNextItem (constructed_mapping\<lparr>m_tetrominoSequences := [(''DJ'', [])]\<rparr>) 0x540000
       = (Inr None, constructed_mapping\<lparr>m_tetrominoSequences := [(''DJ'', [])]\<rparr>)"
proof -
  have a: "m_apItemIdToPrefix constructed_mapping 0x54FFFF = None"
    by (simp add: constructed_mapping_fields apItemIdToPrefix_init_def)
  let ?M = "constructed_mapping\<lparr>m_tetrominoSequences := [(''DJ'', [])]\<rparr>"
  have b: "\<exists>prefix. m_apItemIdToPrefix ?M 0x540000 = Some prefix \<and>
              (map_of (m_tetrominoSequences ?M) prefix = None \<or>
               map_of (m_tetrominoSequences ?M) prefix = Some [])"
    by (simp add: constructed_mapping_fields apItemIdToPrefix_init_def)
  from a have "fst (ResolveNextItem constructed_mapping 0x54FFFF) = Inr None
       \<and> snd (ResolveNextItem constructed_mapping 0x54FFFF) = constructed_mapping"
    using ResolveNextItem_unknown_atomic [of constructed_mapping "0x54FFFF"] by blast
  moreover from b have "fst (ResolveNextItem ?M 0x540000) = Inr None \<and> snd (ResolveNextItem ?M 0x540000) = ?M"
    using ResolveNextItem_unknown_atomic [of ?M "0x540000"] by blast
  ultimately show ?thesis using a by (simp add: prod_eq_iff)
qed

text \<open>
  C4. Overflow safety. From reset counters, let a stream of fewer than \<open>2^31\<close> grants
  (the range of the \<open>int\<close> counter) grant a family with \<open>n\<close> entities \<open>n + k\<close> times,
  \<open>k \<ge> 1\<close>, interleaved with any other grants. Every grant of the family after its
  \<open>n\<close>-th is unresolved, and afterwards the received counter of the family is at
  most \<open>n + k\<close>.
\<close>

theorem overflow_grants_unresolved:
  assumes "same_tables M constructed_mapping"
    and "j < length ids" and "length ids < 2 ^ 31"
    and "m_apItemIdToPrefix M (ids ! j) = Some prefix"
    and "family_grants M prefix ids = length (sequence_of M prefix) + k" and "1 \<le> k"
    and "length (sequence_of M prefix) < family_grants M prefix (take (Suc j) ids)"
  shows "fst (replay (ResetItemCounters M) ids) ! j = Inr None
       \<and> sint (received_count (snd (replay (ResetItemCounters M) ids)) prefix)
           \<le> int (length (sequence_of M prefix) + k)"
proof -
  have r: "ResetItemCounters M = constructed_mapping" using assms(1) by (rule reset_constructed)
  have t: "same_tables constructed_mapping M" using assms(1) by (rule same_tables_sym)
  have so: "sequence_of constructed_mapping prefix = sequence_of M prefix"
    by (rule same_tables_sequence_of [OF t])
  have fg: "family_grants constructed_mapping prefix xs = family_grants M prefix xs" for xs
    by (rule same_tables_family_grants [OF t])
  have pre: "m_apItemIdToPrefix constructed_mapping (ids ! j) = Some prefix"
    using assms(1,4) by (simp add: same_tables_def)
  have short: "length (sequence_of constructed_mapping prefix) < 2 ^ 31"
    by (rule constructed_sequence_short) (simp add: same_tables_def)
  have "fst (replay constructed_mapping ids) ! j = Inr None"
    using replay_result_at [OF constructed_count_zero assms(2,3) pre short] assms(7)
    by (simp add: so fg)
  moreover have "sint (received_count (snd (replay constructed_mapping ids)) prefix)
           \<le> int (length (sequence_of M prefix) + k)"
  proof -
    have "family_grants M prefix ids \<le> length ids" by (simp add: family_grants_def)
    then have "family_grants M prefix ids < 2 ^ 31" using assms(3) by simp
    then have "sint (word_of_nat (family_grants M prefix ids) :: 32 word) = int (family_grants M prefix ids)"
      by (rule sint_of_nat_small)
    then show ?thesis
      using replay_count_from_zero [where M = constructed_mapping and p = prefix and ids = ids, OF constructed_count_zero] assms(5)
      by (simp add: so fg)
  qed
  ultimately show ?thesis by (simp add: r)
qed

theorem overflow_grants_unresolved_witness:
  "fst (replay (ResetItemCounters constructed_mapping) [0x540009, 0x540000, 0x540009]) ! 2 = Inr None
   \<and> sint (received_count (snd (replay (ResetItemCounters constructed_mapping) [0x540009, 0x540000, 0x540009])) ''MJ'') \<le> 2"
proof -
  let ?ids = "[0x540009, 0x540000, 0x540009] :: int list"
  have 1: "same_tables constructed_mapping constructed_mapping" by (simp add: same_tables_def)
  have 2: "2 < length ?ids" by simp
  have 3: "length ?ids < 2 ^ 31" by simp
  have 4: "m_apItemIdToPrefix constructed_mapping (?ids ! 2) = Some ''MJ''"
    by (simp add: constructed_mapping_fields apItemIdToPrefix_init_def)
  have 5: "family_grants constructed_mapping ''MJ'' ?ids = length (sequence_of constructed_mapping ''MJ'') + 1"
    by (simp add: family_grants_def sequence_of_def constructed_mapping_fields apItemIdToPrefix_init_def
        built_sequences_def)
  have 6: "(1::nat) \<le> 1" by simp
  have 7: "length (sequence_of constructed_mapping ''MJ'') < family_grants constructed_mapping ''MJ'' (take (Suc 2) ?ids)"
    by (simp add: family_grants_def sequence_of_def constructed_mapping_fields apItemIdToPrefix_init_def
        built_sequences_def)
  have l: "length (sequence_of constructed_mapping ''MJ'') = 1"
    by (simp add: sequence_of_def constructed_mapping_fields built_sequences_def)
  from overflow_grants_unresolved [OF 1 2 3 4 5 6 7] l show ?thesis by (simp del: replay.simps)
qed

text \<open>
  C3. Resolution is a function of replay order. From reset counters, the grant at
  position \<open>j\<close> of a stream, being the \<open>k\<close>-th grant of its family, returns the
  \<open>k\<close>-th entity of the family's sequence while \<open>k\<close> does not exceed its length (and
  nothing afterwards); the same result is obtained when the family's grants are replayed
  alone, so other families do not interfere; the sequence holds exactly the family's
  tetrominoes in strictly increasing order of the numeric suffix; and a replay from reset
  counters does not depend on the counters before the reset.
\<close>

theorem resolution_follows_replay_order:
  assumes "same_tables M constructed_mapping"
    and "j < length ids" and "length ids < 2 ^ 31"
    and "m_apItemIdToPrefix M (ids ! j) = Some prefix"
  shows "(let seq = sequence_of M prefix;
              k = family_grants M prefix (take (Suc j) ids);
              family = filter (\<lambda>i. m_apItemIdToPrefix M i = Some prefix) ids
          in fst (replay (ResetItemCounters M) ids) ! j =
               (if k \<le> length seq then Inr (Some (seq ! (k - 1))) else Inr None)
           \<and> fst (replay (ResetItemCounters M) ids) ! j = fst (replay (ResetItemCounters M) family) ! (k - 1)
           \<and> set seq = {t \<in> set ALL_TETROMINOES. ExtractPrefix t = prefix}
           \<and> sorted_wrt (\<lambda>a b. number_key a < number_key b) seq)
       \<and> fst (replay (ResetItemCounters M) ids) = fst (replay constructed_mapping ids)"
proof -
  let ?C = constructed_mapping
  let ?seq = "sequence_of M prefix"
  let ?k = "family_grants M prefix (take (Suc j) ids)"
  let ?fs = "filter (\<lambda>i. m_apItemIdToPrefix M i = Some prefix) ids"
  have r: "ResetItemCounters M = ?C" using assms(1) by (rule reset_constructed)
  have t: "same_tables ?C M" using assms(1) by (rule same_tables_sym)
  have so: "sequence_of ?C prefix = ?seq" by (rule same_tables_sequence_of [OF t])
  have fg: "family_grants ?C prefix xs = family_grants M prefix xs" for xs
    by (rule same_tables_family_grants [OF t])
  have tab: "m_apItemIdToPrefix ?C = m_apItemIdToPrefix M" using assms(1) by (simp add: same_tables_def)
  have pre: "m_apItemIdToPrefix ?C (ids ! j) = Some prefix" using assms(4) tab by simp
  have short: "length (sequence_of ?C prefix) < 2 ^ 31"
    by (rule constructed_sequence_short) (simp add: same_tables_def)
  have a: "fst (replay ?C ids) ! j = (if ?k \<le> length ?seq then Inr (Some (?seq ! (?k - 1))) else Inr None)"
    using replay_result_at [OF constructed_count_zero assms(2,3) pre short] by (simp add: so fg)
  define m where "m = ?k - 1"
  have km: "?k = Suc m" using family_grants_take_Suc [OF assms(2,4)] by (simp add: m_def)
  have kle: "?k \<le> length ?fs"
    using family_grants_take_le [of M prefix "Suc j" ids] by (simp add: family_grants_def)
  have j': "m < length ?fs" using km kle by simp
  have "length ?fs \<le> length ids" by (rule length_filter_le)
  then have len': "length ?fs < 2 ^ 31" using assms(3) by (rule le_less_trans)
  have "?fs ! m \<in> set ?fs" using j' by (rule nth_mem)
  then have pre': "m_apItemIdToPrefix ?C (?fs ! m) = Some prefix" using tab by simp
  have k': "family_grants ?C prefix (take (Suc m) ?fs) = Suc m"
    unfolding fg by (rule family_grants_of_family) (use j' in simp)
  have "fst (replay ?C ?fs) ! m =
          (if Suc m \<le> length ?seq then Inr (Some (?seq ! (Suc m - 1))) else Inr None)"
    using replay_result_at [OF constructed_count_zero j' len' pre' short] unfolding k' so .
  then have b: "fst (replay ?C ?fs) ! (?k - 1) =
          (if ?k \<le> length ?seq then Inr (Some (?seq ! (?k - 1))) else Inr None)"
    unfolding km by simp
  have c1: "set ?seq = {t \<in> set ALL_TETROMINOES. ExtractPrefix t = prefix}"
    using assms(1,4) by (rule constructed_sequence_family(1))
  have c2: "sorted_wrt (\<lambda>a b. number_key a < number_key b) ?seq"
    using assms(1,4) by (rule constructed_sequence_family(2))
  have ab: "fst (replay ?C ids) ! j = fst (replay ?C ?fs) ! (?k - 1)"
    by (simp only: a b)
  show ?thesis unfolding Let_def r by (intro conjI a ab c1 c2 refl)
qed

theorem resolution_follows_replay_order_witness:
  "fst (replay (ResetItemCounters constructed_mapping) [0x540000, 0x540005, 0x540000]) ! 2 = Inr (Some ''DJ2'')
   \<and> fst (replay (ResetItemCounters constructed_mapping) [0x540000, 0x540005, 0x540000]) ! 2
      = fst (replay (ResetItemCounters constructed_mapping) [0x540000, 0x540000]) ! 1
   \<and> sequence_of constructed_mapping ''DJ'' = [''DJ1'', ''DJ2'', ''DJ3'', ''DJ4'', ''DJ5'']"
proof -
  let ?ids = "[0x540000, 0x540005, 0x540000] :: int list"
  have 1: "same_tables constructed_mapping constructed_mapping" by (simp add: same_tables_def)
  have 2: "2 < length ?ids" by simp
  have 3: "length ?ids < 2 ^ 31" by simp
  have 4: "m_apItemIdToPrefix constructed_mapping (?ids ! 2) = Some ''DJ''"
    by (simp add: constructed_mapping_fields apItemIdToPrefix_init_def)
  have s: "sequence_of constructed_mapping ''DJ'' = [''DJ1'', ''DJ2'', ''DJ3'', ''DJ4'', ''DJ5'']"
    by (simp add: sequence_of_def constructed_mapping_fields built_sequences_def)
  have k: "family_grants constructed_mapping ''DJ'' (take (Suc 2) ?ids) = 2"
    by (simp add: family_grants_def constructed_mapping_fields apItemIdToPrefix_init_def)
  have f: "filter (\<lambda>i. m_apItemIdToPrefix constructed_mapping i = Some ''DJ'') ?ids = [0x540000, 0x540000]"
    by (simp add: constructed_mapping_fields apItemIdToPrefix_init_def)
  have "fst (replay (ResetItemCounters constructed_mapping) ?ids) ! 2 =
          (if 2 \<le> length [''DJ1'', ''DJ2'', ''DJ3'', ''DJ4'', ''DJ5'']
           then Inr (Some ([''DJ1'', ''DJ2'', ''DJ3'', ''DJ4'', ''DJ5''] ! (2 - 1))) else Inr None)
      \<and> fst (replay (ResetItemCounters constructed_mapping) ?ids) ! 2 =
          fst (replay (ResetItemCounters constructed_mapping) [0x540000, 0x540000]) ! (2 - 1)"
    (is "?A \<and> ?B")
    using resolution_follows_replay_order [OF 1 2 3 4] unfolding Let_def s k f by blast
  then have A: ?A and B: ?B by blast+
  from A have "fst (replay (ResetItemCounters constructed_mapping) ?ids) ! 2 = Inr (Some ''DJ2'')"
    by (simp del: replay.simps)
  moreover from B have "fst (replay (ResetItemCounters constructed_mapping) ?ids) ! 2 =
          fst (replay (ResetItemCounters constructed_mapping) [0x540000, 0x540000]) ! 1"
    by (simp del: replay.simps)
  ultimately show ?thesis using s by blast
qed

text \<open>
  C9. The location tables built by the constructor are a bijection between the checkable
  entity names (tetromino and star ids) and their location ids: looking a name up and back
  returns the name, looking an id up and back returns the id, every name has a
  non-negative id, the ids of the names are exactly the ids of the table, and names as
  well as ids are pairwise distinct.
\<close>

theorem location_tables_bijective:
  assumes "same_tables M constructed_mapping"
  shows "(\<forall>name \<in> set location_names. GetLocationName M (GetLocationId M name) = name \<and> 0 \<le> GetLocationId M name)
       \<and> (\<forall>locId \<in> dom (m_locationIdToName M). GetLocationId M (GetLocationName M locId) = locId)
       \<and> dom (m_locationNameToId M) = set location_names
       \<and> GetLocationId M ` set location_names = dom (m_locationIdToName M)
       \<and> inj_on (GetLocationId M) (set location_names)
       \<and> inj_on (GetLocationName M) (dom (m_locationIdToName M))
       \<and> distinct location_names"
proof -
  have n: "m_locationNameToId M = m_locationNameToId constructed_mapping"
    and i: "m_locationIdToName M = m_locationIdToName constructed_mapping"
    using assms by (simp_all add: same_tables_def)
  have inv: "inverse_tables (m_locationNameToId M) (m_locationIdToName M)"
    using constructed_locations(1) n i by simp
  have d: "dom (m_locationNameToId M) = set location_names"
    using constructed_locations(2) n by simp
  have nonneg: "0 \<le> GetLocationId M name" if "name \<in> set location_names" for name
  proof -
    from that d obtain v where v: "m_locationNameToId M name = Some v" by auto
    with inv have "m_locationIdToName M v = Some name" by (simp add: inverse_tables_def)
    then have "v \<in> dom (m_locationIdToName constructed_mapping)" using i by auto
    with constructed_locations(3) have "BASE_LOCATION_ID \<le> v" by blast
    then show ?thesis using v by (simp add: GetLocationId_def BASE_LOCATION_ID_def)
  qed
  show ?thesis
    using inverse_tables_roundtrip [OF inv] inverse_tables_inj [OF inv] inverse_tables_dom [OF inv]
      d nonneg location_names_distinct
    by (simp add: location_names_def)
qed

theorem location_tables_bijective_witness:
  "''DJ3'' \<in> set location_names
   \<and> GetLocationName constructed_mapping (GetLocationId constructed_mapping ''DJ3'') = ''DJ3''
   \<and> 0 \<le> GetLocationId constructed_mapping ''DJ3''
   \<and> GetLocationId constructed_mapping (GetLocationName constructed_mapping (GetLocationId constructed_mapping ''Star30''))
       = GetLocationId constructed_mapping ''Star30''"
proof -
  have t: "same_tables constructed_mapping constructed_mapping" by (simp add: same_tables_def)
  have a: "''DJ3'' \<in> set location_names"
    by (simp add: location_names_def ALL_TETROMINOES_def)
  have b: "''Star30'' \<in> set location_names"
    by (simp add: location_names_def ALL_STARS_def)
  note th = location_tables_bijective [OF t]
  from th a have 1: "GetLocationName constructed_mapping (GetLocationId constructed_mapping ''DJ3'') = ''DJ3''
      \<and> 0 \<le> GetLocationId constructed_mapping ''DJ3''" by blast
  from th b have "GetLocationId constructed_mapping ''Star30'' \<in> dom (m_locationIdToName constructed_mapping)"
    by blast
  with th have 2: "GetLocationId constructed_mapping (GetLocationName constructed_mapping (GetLocationId constructed_mapping ''Star30''))
       = GetLocationId constructed_mapping ''Star30''" by blast
  from a 1 2 show ?thesis by blast
qed

text \<open>
  C2. The stated invariant does not hold: the counter is incremented before the length
  check and is not reverted, so it passes the length of the sequence. Two grants of
  "Golden J" (one entity, \<open>MJ1\<close>) leave the counter at 2.
\<close>

theorem received_count_exceeds_sequence:
  "\<not> sint (received_count (run_calls constructed_mapping [CallResolve 0x540009, CallResolve 0x540009]) ''MJ'')
       \<le> int (length (sequence_of constructed_mapping ''MJ''))"
proof -
  have l: "length (sequence_of constructed_mapping ''MJ'') = 1"
    by (simp add: sequence_of_def constructed_mapping_fields built_sequences_def)
  have s: "sequence_of constructed_mapping ''MJ'' \<noteq> []"
    by (simp add: sequence_of_def constructed_mapping_fields built_sequences_def)
  have g: "family_grants constructed_mapping ''MJ''
             (grants_since_reset [CallResolve 0x540009, CallResolve 0x540009]) = 2"
    by (simp add: family_grants_def grants_since_reset_def constructed_mapping_fields apItemIdToPrefix_init_def)
  have "received_count (run_calls constructed_mapping [CallResolve 0x540009, CallResolve 0x540009]) ''MJ''
          = word_of_nat 2"
    using replay_count_from_zero [where M = constructed_mapping and p = "''MJ''", OF constructed_count_zero]
      run_calls_replay [OF constructed_mapping_fields(5)] s g by simp
  then show ?thesis using l by simp
qed

text \<open>
  C2, as the code has it. After any sequence of fewer than \<open>2^31 - 1\<close> calls of
  \<open>ResolveNextItem\<close> and \<open>ResetItemCounters\<close> on the constructed object, the counter of
  a known family is the number of grants of that family since the last reset, rejected
  ones included. The next request of the family is rejected (\<open>std::nullopt\<close>) when that
  number has reached the length of the sequence, and otherwise returns the entity at that
  position; it never wraps around to an earlier entity. In both cases the counter goes up
  by one.
\<close>

theorem received_count_counts_grants:
  assumes "m_apItemIdToPrefix constructed_mapping apItemId = Some prefix"
    and "length calls < 2 ^ 31 - 1"
  shows "(let M = run_calls constructed_mapping calls;
              seq = sequence_of constructed_mapping prefix;
              g = family_grants constructed_mapping prefix (grants_since_reset calls)
          in sint (received_count M prefix) = int g
           \<and> fst (ResolveNextItem M apItemId) = (if g < length seq then Inr (Some (seq ! g)) else Inr None)
           \<and> sint (received_count (snd (ResolveNextItem M apItemId)) prefix) = int g + 1)"
proof -
  let ?C = constructed_mapping
  let ?ids = "grants_since_reset calls"
  let ?M = "run_calls ?C calls"
  let ?g = "family_grants ?C prefix ?ids"
  have t: "same_tables ?C ?C" by (simp add: same_tables_def)
  have run: "?M = snd (replay ?C ?ids)"
    by (rule run_calls_replay) (rule constructed_mapping_fields(5))
  have ne: "sequence_of ?C prefix \<noteq> []"
    using t assms(1) by (rule constructed_sequence_family(3))
  have short: "length (sequence_of ?C prefix) < 2 ^ 31"
    using t by (rule constructed_sequence_short)
  have len: "length ?ids < 2 ^ 31 - 1"
    using grants_since_reset_length [of calls] assms(2) by simp
  have "?g \<le> length ?ids" by (simp add: family_grants_def)
  then have g: "?g < 2 ^ 31 - 1" using len by simp
  have c: "received_count ?M prefix = word_of_nat ?g"
    unfolding run using replay_count_from_zero [where M = ?C and p = prefix and ids = ?ids, OF constructed_count_zero] ne
    by simp
  have 1: "sint (received_count ?M prefix) = int ?g"
    unfolding c using g by (simp add: sint_of_nat_small)
  have 2: "fst (ResolveNextItem ?M apItemId) =
             (if ?g < length (sequence_of ?C prefix) then Inr (Some (sequence_of ?C prefix ! ?g)) else Inr None)"
    unfolding run by (rule replay_next_result [OF constructed_count_zero assms(1) len short])
  have tm: "same_tables ?M ?C" unfolding run by (rule replay_tables)
  have "received_count (snd (ResolveNextItem ?M apItemId)) prefix = received_count ?M prefix + 1"
    using ResolveNextItem_count [of ?M apItemId prefix] assms(1) ne tm same_tables_sequence_of [OF tm, of prefix]
    by (simp add: same_tables_def)
  also have "\<dots> = word_of_nat (Suc ?g)" unfolding c by simp
  finally have 3: "sint (received_count (snd (ResolveNextItem ?M apItemId)) prefix) = int ?g + 1"
    using g sint_of_nat_small [of "Suc ?g"] by simp
  show ?thesis unfolding Let_def by (intro conjI 1 2 3)
qed

theorem received_count_counts_grants_witness:
  "sint (received_count (run_calls constructed_mapping [CallResolve 0x540009, CallReset, CallResolve 0x540009]) ''MJ'') = 1
   \<and> fst (ResolveNextItem (run_calls constructed_mapping [CallResolve 0x540009, CallReset, CallResolve 0x540009]) 0x540009)
       = Inr None
   \<and> sint (received_count (snd (ResolveNextItem
         (run_calls constructed_mapping [CallResolve 0x540009, CallReset, CallResolve 0x540009]) 0x540009)) ''MJ'') = 2"
proof -
  let ?calls = "[CallResolve 0x540009, CallReset, CallResolve 0x540009]"
  have 1: "m_apItemIdToPrefix constructed_mapping 0x540009 = Some ''MJ''"
    by (simp add: constructed_mapping_fields apItemIdToPrefix_init_def)
  have 2: "length ?calls < 2 ^ 31 - 1" by simp
  have s: "sequence_of constructed_mapping ''MJ'' = [''MJ1'']"
    by (simp add: sequence_of_def constructed_mapping_fields built_sequences_def)
  have g: "family_grants constructed_mapping ''MJ'' (grants_since_reset ?calls) = 1"
    by (simp add: family_grants_def grants_since_reset_def constructed_mapping_fields apItemIdToPrefix_init_def)
  from received_count_counts_grants [OF 1 2] show ?thesis
    unfolding Let_def s g by simp
qed


section \<open>Properties of the protocol client\<close>

lemma Dlist_insert_member: "Dlist.member d x \<Longrightarrow> Dlist.insert x d = d"
  by (rule dlist_eqI) (simp add: Dlist.member_def List.insert_def)

lemma Dlist_member_insert: "Dlist.member (Dlist.insert x d) y \<longleftrightarrow> y = x \<or> Dlist.member d y"
  by (auto simp: Dlist.member_def)

lemma MarkLocationChecked_member:
  "Dlist.member (CheckedLocations (MarkLocationChecked t st)) y \<longleftrightarrow> y = t \<or> Dlist.member (CheckedLocations st) y"
  by (simp add: MarkLocationChecked_def Dlist_member_insert)

lemma MarkLocationChecked_idem:
  "Dlist.member (CheckedLocations st) t \<Longrightarrow> MarkLocationChecked t st = st"
  by (simp add: MarkLocationChecked_def Dlist_insert_member)

lemma mark_server_checked_mono:
  "Dlist.member (CheckedLocations st) y \<Longrightarrow> Dlist.member (CheckedLocations (mark_server_checked M S st)) y"
  by (induction S arbitrary: st) (simp_all add: Let_def MarkLocationChecked_member)

lemma mark_server_checked_other:
  "GrantedItems (mark_server_checked M S st) = GrantedItems st"
  "APSynced (mark_server_checked M S st) = APSynced st"
  by (induction S arbitrary: st) (simp_all add: Let_def MarkLocationChecked_def)

text \<open>Restoring a set whose known entities are all checked already changes nothing.\<close>

lemma mark_server_checked_absorbed:
  "(\<And>locId. locId \<in> set S \<Longrightarrow> GetLocationName M locId \<noteq> [] \<Longrightarrow>
      Dlist.member (CheckedLocations st) (GetLocationName M locId)) \<Longrightarrow>
   mark_server_checked M S st = st"
  by (induction S arbitrary: st) (simp_all add: Let_def MarkLocationChecked_idem)

lemma mark_server_checked_covers:
  "locId \<in> set S \<Longrightarrow> GetLocationName M locId \<noteq> [] \<Longrightarrow>
   Dlist.member (CheckedLocations (mark_server_checked M S st)) (GetLocationName M locId)"
proof (induction S arbitrary: st)
  case Nil
  then show ?case by simp
next
  case (Cons a S)
  show ?case
  proof (cases "locId = a")
    case True
    have "Dlist.member (CheckedLocations (MarkLocationChecked (GetLocationName M a) st)) (GetLocationName M a)"
      by (simp add: MarkLocationChecked_member)
    then show ?thesis using True Cons.prems(2)
      by (simp add: Let_def mark_server_checked_mono)
  next
    case False
    then have "locId \<in> set S" using Cons.prems(1) by simp
    then show ?thesis using Cons.IH Cons.prems(2) by (simp add: Let_def)
  qed
qed

lemma mark_server_checked_tables:
  "m_locationIdToName M = m_locationIdToName M' \<Longrightarrow> mark_server_checked M S st = mark_server_checked M' S st"
  by (induction S arbitrary: st) (simp_all add: Let_def GetLocationName_def)

lemma mark_server_checked_cong:
  "CheckedLocations st = CheckedLocations st' \<Longrightarrow>
   CheckedLocations (mark_server_checked M S st) = CheckedLocations (mark_server_checked M S st')"
proof (induction S arbitrary: st st')
  case Nil
  then show ?case by simp
next
  case (Cons a S)
  let ?n = "GetLocationName M a"
  have "CheckedLocations (if ?n \<noteq> [] then MarkLocationChecked ?n st else st) =
        CheckedLocations (if ?n \<noteq> [] then MarkLocationChecked ?n st' else st')"
    using Cons.prems by (simp add: MarkLocationChecked_def)
  then have "CheckedLocations (mark_server_checked M S (if ?n \<noteq> [] then MarkLocationChecked ?n st else st)) =
        CheckedLocations (mark_server_checked M S (if ?n \<noteq> [] then MarkLocationChecked ?n st' else st'))"
    by (rule Cons.IH)
  then show ?case by (simp add: Let_def)
qed

text \<open>The parts of the session after the slot-connected handler.\<close>

lemma slot_connected_mapping:
  "s_mapping (fst (slot_connected_handler p t S r s)) = ResetItemCounters (s_mapping s)"
  by (cases r) (simp_all add: slot_connected_handler_def Let_def)

lemma slot_connected_has_ap:
  "has_ap (s_client (fst (slot_connected_handler p t S r s))) = has_ap (s_client s)"
  by (cases r) (simp_all add: slot_connected_handler_def Let_def)

lemma slot_connected_checked:
  "CheckedLocations (s_state (fst (slot_connected_handler p t S r s))) =
     (if has_ap (s_client s)
      then CheckedLocations (mark_server_checked (ResetItemCounters (s_mapping s)) S (s_state s))
      else CheckedLocations (s_state s))"
proof -
  have "CheckedLocations (mark_server_checked (ResetItemCounters (s_mapping s)) S
            ((s_state s)\<lparr>GrantedItems := Dlist.empty\<rparr>)) =
        CheckedLocations (mark_server_checked (ResetItemCounters (s_mapping s)) S (s_state s))"
    by (rule mark_server_checked_cong) simp
  then show ?thesis
    by (cases r) (simp_all add: slot_connected_handler_def Let_def)
qed


text \<open>
  C6. Reconnect idempotence: running the slot-connected handler a second time with the
  same server-side checked set leaves \<open>CheckedLocations\<close> as the first run left it,
  whatever the set, the player data and the slot data are.
\<close>

theorem reconnect_restore_idempotent:
  "CheckedLocations (s_state (fst (slot_connected_handler playerNumber' teamNumber' serverChecked reusable'
       (fst (slot_connected_handler playerNumber teamNumber serverChecked reusable s))))) =
   CheckedLocations (s_state (fst (slot_connected_handler playerNumber teamNumber serverChecked reusable s)))"
proof (cases "has_ap (s_client s)")
  case False
  then show ?thesis by (simp add: slot_connected_checked slot_connected_has_ap)
next
  case True
  let ?M = "ResetItemCounters (s_mapping s)"
  let ?s1 = "fst (slot_connected_handler playerNumber teamNumber serverChecked reusable s)"
  let ?st1 = "mark_server_checked ?M serverChecked (s_state s)"
  have MM: "ResetItemCounters ?M = ?M" by (simp add: ResetItemCounters_def)
  have c1: "CheckedLocations (s_state ?s1) = CheckedLocations ?st1"
    using True by (simp add: slot_connected_checked)
  have "CheckedLocations (s_state (fst (slot_connected_handler playerNumber' teamNumber' serverChecked reusable' ?s1))) =
        CheckedLocations (mark_server_checked ?M serverChecked (s_state ?s1))"
    using True by (simp add: slot_connected_checked slot_connected_has_ap slot_connected_mapping MM)
  also have "\<dots> = CheckedLocations (mark_server_checked ?M serverChecked ?st1)"
    using c1 by (rule mark_server_checked_cong)
  also have "mark_server_checked ?M serverChecked ?st1 = ?st1"
    by (rule mark_server_checked_absorbed) (simp add: mark_server_checked_covers)
  finally show ?thesis using c1 by simp
qed







section \<open>Properties of the visibility manager and the tick\<close>

lemma callback_locations_append [simp]:
  "callback_locations (xs @ ys) = callback_locations xs @ callback_locations ys"
  by (induction xs rule: callback_locations.induct) simp_all

lemma visibility_calls_append [simp]:
  "visibility_calls (xs @ ys) = visibility_calls xs @ visibility_calls ys"
  by (induction xs rule: visibility_calls.induct) simp_all

lemma sent_locations_append [simp]:
  "sent_locations (xs @ ys) = sent_locations xs @ sent_locations ys"
  by (induction xs rule: sent_locations.induct) simp_all

text \<open>The lambda of the tick never reports an invocation of its own.\<close>

lemma location_check_lambda_callbacks [simp]:
  "callback_locations (location_check_lambda c locId) = []"
  by (simp add: location_check_lambda_def SendLocationCheck_def split: option.split)

lemma OpenFenceForTetromino_callbacks [simp]:
  "callback_locations (snd (OpenFenceForTetromino fm t p)) = []"
  by (simp add: OpenFenceForTetromino_def split: option.split)








lemma set_AList_update: "set (AList.update k v al) \<subseteq> insert (k, v) (set al)"
  by (induction al) auto

lemma apply_visibility_facts:
  "reported (fst (apply_visibility st tetId tt)) = reported tt"
  "callback_locations (snd (apply_visibility st tetId tt)) = []"
  by (simp_all add: apply_visibility_def)

lemma new_tracked_unreported: "\<not> reported (new_tracked tetId pos)"
  by (simp add: new_tracked_def split: option.split prod.split)

text \<open>The scans: no callback, and the rebuilt entries keep the invariant.\<close>

lemma scan_items_callbacks:
  "scan_items st items tracked = (tracked', effs) \<Longrightarrow> callback_locations effs = []"
proof (induction items arbitrary: tracked tracked' effs)
  case Nil
  then show ?case by simp
next
  case (Cons it items)
  show ?case
  proof (cases "item_tetId it")
    case None
    with Cons.prems have "scan_items st items tracked = (tracked', effs)" by simp
    then show ?thesis by (rule Cons.IH)
  next
    case (Some tetId)
    let ?r = "apply_visibility st tetId (new_tracked tetId (item_position it))"
    obtain t1 e1 where rest: "scan_items st items (AList.update tetId (fst ?r) tracked) = (t1, e1)"
      by (cases "scan_items st items (AList.update tetId (fst ?r) tracked)")
    from Cons.prems Some rest have "effs = snd ?r @ e1" by (simp split: prod.splits)
    with Cons.IH [OF rest] show ?thesis by (simp add: apply_visibility_facts)
  qed
qed

lemma scan_items_reported:
  "scan_items st items tracked = (tracked', effs) \<Longrightarrow> reported_are_checked st tracked \<Longrightarrow>
   reported_are_checked st tracked'"
proof (induction items arbitrary: tracked tracked' effs)
  case Nil
  then show ?case by simp
next
  case (Cons it items)
  show ?case
  proof (cases "item_tetId it")
    case None
    with Cons.prems(1) have "scan_items st items tracked = (tracked', effs)" by simp
    then show ?thesis using Cons.prems(2) by (rule Cons.IH)
  next
    case (Some tetId)
    let ?r = "apply_visibility st tetId (new_tracked tetId (item_position it))"
    obtain t1 e1 where rest: "scan_items st items (AList.update tetId (fst ?r) tracked) = (t1, e1)"
      by (cases "scan_items st items (AList.update tetId (fst ?r) tracked)")
    from Cons.prems(1) Some rest have eq: "tracked' = t1" by (simp split: prod.splits)
    have "\<not> reported (fst ?r)" by (simp add: apply_visibility_facts new_tracked_unreported)
    then have "reported_are_checked st (AList.update tetId (fst ?r) tracked)"
      using Cons.prems(2) set_AList_update [of tetId "fst ?r" tracked]
      unfolding reported_are_checked_def by fastforce
    with rest have "reported_are_checked st t1" by (rule Cons.IH)
    then show ?thesis using eq by simp
  qed
qed

lemma ScanLevel_facts:
  assumes "ScanLevel w st vm = (vm', effs)"
  shows "callback_locations effs = []"
    and "reported_are_checked st (m_tracked vm')"
proof -
  have empty: "reported_are_checked st []" by (simp add: reported_are_checked_def)
  show "callback_locations effs = []"
    using assms scan_items_callbacks [of st _ "[]"]
    by (auto simp: ScanLevel_def Let_def split: option.splits if_splits prod.splits)
  show "reported_are_checked st (m_tracked vm')"
    using assms scan_items_reported [OF _ empty] empty
    by (auto simp: ScanLevel_def Let_def split: option.splits if_splits prod.splits)
qed

text \<open>The refresh: the flag is carried over from an entry that satisfied the invariant.\<close>

lemma carry_over_reported:
  "reported (carry_over old tt) \<longleftrightarrow> (case old of None \<Rightarrow> reported tt | Some prev \<Rightarrow> reported prev)"
  by (simp add: carry_over_def Let_def split: option.split)

lemma refresh_items_callbacks:
  "refresh_items st old items newTracked = (tracked', effs) \<Longrightarrow> callback_locations effs = []"
proof (induction items arbitrary: newTracked tracked' effs)
  case Nil
  then show ?case by simp
next
  case (Cons it items)
  show ?case
  proof (cases "item_tetId it")
    case None
    with Cons.prems have "refresh_items st old items newTracked = (tracked', effs)" by simp
    then show ?thesis by (rule Cons.IH)
  next
    case (Some tetId)
    let ?r = "apply_visibility st tetId (carry_over (map_of old tetId) (new_tracked tetId (item_position it)))"
    obtain t1 e1 where rest: "refresh_items st old items (AList.update tetId (fst ?r) newTracked) = (t1, e1)"
      by (cases "refresh_items st old items (AList.update tetId (fst ?r) newTracked)")
    from Cons.prems Some rest have "effs = snd ?r @ e1" by (simp split: prod.splits)
    with Cons.IH [OF rest] show ?thesis by (simp add: apply_visibility_facts)
  qed
qed

lemma refresh_items_reported:
  "refresh_items st old items newTracked = (tracked', effs) \<Longrightarrow> reported_are_checked st old \<Longrightarrow>
   reported_are_checked st newTracked \<Longrightarrow> reported_are_checked st tracked'"
proof (induction items arbitrary: newTracked tracked' effs)
  case Nil
  then show ?case by simp
next
  case (Cons it items)
  show ?case
  proof (cases "item_tetId it")
    case None
    with Cons.prems(1) have "refresh_items st old items newTracked = (tracked', effs)" by simp
    then show ?thesis using Cons.prems(2,3) by (rule Cons.IH)
  next
    case (Some tetId)
    let ?tt = "carry_over (map_of old tetId) (new_tracked tetId (item_position it))"
    let ?r = "apply_visibility st tetId ?tt"
    obtain t1 e1 where rest: "refresh_items st old items (AList.update tetId (fst ?r) newTracked) = (t1, e1)"
      by (cases "refresh_items st old items (AList.update tetId (fst ?r) newTracked)")
    from Cons.prems(1) Some rest have eq: "tracked' = t1" by (simp split: prod.splits)
    have new_ok: "reported (fst ?r) \<longrightarrow> Dlist.member (CheckedLocations st) tetId"
    proof
      assume "reported (fst ?r)"
      then have "reported ?tt" by (simp add: apply_visibility_facts)
      then obtain prev where prev: "map_of old tetId = Some prev" "reported prev"
        by (cases "map_of old tetId") (simp_all add: carry_over_reported new_tracked_unreported)
      from prev(1) have "(tetId, prev) \<in> set old" by (rule map_of_SomeD)
      with Cons.prems(2) prev(2) show "Dlist.member (CheckedLocations st) tetId"
        unfolding reported_are_checked_def by blast
    qed
    have "reported_are_checked st (AList.update tetId (fst ?r) newTracked)"
      using Cons.prems(3) new_ok set_AList_update [of tetId "fst ?r" newTracked]
      unfolding reported_are_checked_def by fastforce
    with rest Cons.prems(2) have "reported_are_checked st t1" by (rule Cons.IH)
    then show ?thesis using eq by simp
  qed
qed

lemma RefreshVisibility_facts:
  assumes "RefreshVisibility w st vm = (vm', effs)"
  shows "callback_locations effs = []"
    and "reported_are_checked st (m_tracked vm) \<Longrightarrow> reported_are_checked st (m_tracked vm')"
proof -
  have empty: "reported_are_checked st []" by (simp add: reported_are_checked_def)
  show "callback_locations effs = []"
    using assms refresh_items_callbacks [of st "m_tracked vm" _ "[]"]
    by (auto simp: RefreshVisibility_def split: option.splits if_splits prod.splits)
  show "reported_are_checked st (m_tracked vm')" if "reported_are_checked st (m_tracked vm)"
    using assms refresh_items_reported [OF _ that empty] that
    by (auto simp: RefreshVisibility_def split: option.splits if_splits prod.splits)
qed


text \<open>Effects of the scans are visibility calls only.\<close>

lemma visibility_calls_length: "length (visibility_calls effs) \<le> length effs"
  by (induction effs rule: visibility_calls.induct) simp_all

lemma visibility_calls_Cons_neq:
  "visibility_calls effs \<noteq> e # effs"
proof
  assume "visibility_calls effs = e # effs"
  then have "length (visibility_calls effs) = Suc (length effs)" by simp
  with visibility_calls_length [of effs] show False by simp
qed

lemma only_visibility_calls:
  assumes "visibility_calls effs = effs"
  shows "callback_locations effs = []" and "sent_locations effs = []"
  using assms
  by (induction effs rule: visibility_calls.induct) (simp_all add: visibility_calls_Cons_neq)

lemma apply_visibility_shape:
  "visibility_calls (snd (apply_visibility st tetId tt)) = snd (apply_visibility st tetId tt)"
  by (simp add: apply_visibility_def)

lemma scan_items_shape:
  "scan_items st items tracked = (tracked', effs) \<Longrightarrow> visibility_calls effs = effs"
proof (induction items arbitrary: tracked tracked' effs)
  case Nil
  then show ?case by simp
next
  case (Cons it items)
  show ?case
  proof (cases "item_tetId it")
    case None
    with Cons.prems have "scan_items st items tracked = (tracked', effs)" by simp
    then show ?thesis by (rule Cons.IH)
  next
    case (Some tetId)
    let ?r = "apply_visibility st tetId (new_tracked tetId (item_position it))"
    obtain t1 e1 where rest: "scan_items st items (AList.update tetId (fst ?r) tracked) = (t1, e1)"
      by (cases "scan_items st items (AList.update tetId (fst ?r) tracked)")
    from Cons.prems Some rest have "effs = snd ?r @ e1" by (simp split: prod.splits)
    with Cons.IH [OF rest] show ?thesis by (simp add: apply_visibility_shape)
  qed
qed

lemma refresh_items_shape:
  "refresh_items st old items newTracked = (tracked', effs) \<Longrightarrow> visibility_calls effs = effs"
proof (induction items arbitrary: newTracked tracked' effs)
  case Nil
  then show ?case by simp
next
  case (Cons it items)
  show ?case
  proof (cases "item_tetId it")
    case None
    with Cons.prems have "refresh_items st old items newTracked = (tracked', effs)" by simp
    then show ?thesis by (rule Cons.IH)
  next
    case (Some tetId)
    let ?r = "apply_visibility st tetId (carry_over (map_of old tetId) (new_tracked tetId (item_position it)))"
    obtain t1 e1 where rest: "refresh_items st old items (AList.update tetId (fst ?r) newTracked) = (t1, e1)"
      by (cases "refresh_items st old items (AList.update tetId (fst ?r) newTracked)")
    from Cons.prems Some rest have "effs = snd ?r @ e1" by (simp split: prod.splits)
    with Cons.IH [OF rest] show ?thesis by (simp add: apply_visibility_shape)
  qed
qed

lemma ScanLevel_shape: "visibility_calls (snd (ScanLevel w st vm)) = snd (ScanLevel w st vm)"
  using scan_items_shape [of st _ "[]"]
  by (auto simp: ScanLevel_def Let_def split: option.splits prod.splits)

lemma RefreshVisibility_shape:
  "visibility_calls (snd (RefreshVisibility w st vm)) = snd (RefreshVisibility w st vm)"
  using refresh_items_shape [of st "m_tracked vm" _ "[]"]
  by (auto simp: RefreshVisibility_def split: option.splits prod.splits)

text \<open>The fence queue neither reports nor touches visibility or the tracked set.\<close>

lemma try_open_fence_quiet:
  "callback_locations (snd (try_open_fence name fences)) = [] \<and>
   sent_locations (snd (try_open_fence name fences)) = [] \<and>
   visibility_calls (snd (try_open_fence name fences)) = []"
  by (induction name fences rule: try_open_fence.induct) (auto split: prod.split)

lemma process_pending_quiet:
  "callback_locations (snd (process_pending fences k pending)) = [] \<and>
   sent_locations (snd (process_pending fences k pending)) = [] \<and>
   visibility_calls (snd (process_pending fences k pending)) = []"
proof (induction pending arbitrary: k)
  case Nil
  show ?case by simp
next
  case (Cons entry rest)
  define attempt where "attempt =
    (case fences k of None \<Rightarrow> (False, []) | Some fs \<Rightarrow> try_open_fence (fenceFullName entry) fs)"
  have a: "callback_locations (snd attempt) = [] \<and> sent_locations (snd attempt) = [] \<and>
           visibility_calls (snd attempt) = []"
    using try_open_fence_quiet [of "fenceFullName entry"]
    by (cases "fences k") (simp_all add: attempt_def)
  obtain opened effs where at: "attempt = (opened, effs)" by (cases attempt)
  obtain remaining effs' where r: "process_pending fences (Suc k) rest = (remaining, effs')"
    by (cases "process_pending fences (Suc k) rest")
  have "process_pending fences k (entry # rest) =
      (if opened
       then (remaining, effs @ [LogFenceOpened (pending_tetId entry) (attempts entry + 1)] @ effs')
       else if attempts entry + 1 < 10
       then (entry\<lparr>attempts := attempts entry + 1\<rparr> # remaining,
             effs @ [LogFenceRetry (attempts entry + 1) (pending_tetId entry)] @ effs')
       else (remaining, effs @ [LogFenceGaveUp (pending_tetId entry)] @ effs'))"
    using at r by (simp add: attempt_def)
  then show ?case using a at Cons.IH [of "Suc k"] r by simp
qed

lemma ProcessPendingFenceOpens_quiet:
  "callback_locations (snd (ProcessPendingFenceOpens w vm)) = []"
  "sent_locations (snd (ProcessPendingFenceOpens w vm)) = []"
  "visibility_calls (snd (ProcessPendingFenceOpens w vm)) = []"
  "m_tracked (fst (ProcessPendingFenceOpens w vm)) = m_tracked vm"
  using process_pending_quiet [of "find_fences w" 0 "m_pendingFenceOpens vm"]
  by (auto simp: ProcessPendingFenceOpens_def split: prod.split)

lemma checked_grows_refl [simp]: "checked_grows st st"
  by (simp add: checked_grows_def)

lemma checked_grows_trans: "checked_grows a b \<Longrightarrow> checked_grows b c \<Longrightarrow> checked_grows a c"
  by (simp add: checked_grows_def)

lemma checked_grows_eq: "CheckedLocations st' = CheckedLocations st \<Longrightarrow> checked_grows st st'"
  by (simp add: checked_grows_def)



text \<open>The handlers of the protocol client.\<close>

lemma grant_items_facts:
  "grant_items items M st = Some (M', st') \<Longrightarrow>
   same_tables M' M \<and> CheckedLocations st' = CheckedLocations st"
proof (induction items arbitrary: M st)
  case Nil
  then show ?case by (simp add: same_tables_def)
next
  case (Cons it items)
  obtain r M1 where one: "ResolveNextItem M (ni_item it) = (r, M1)" by (cases "ResolveNextItem M (ni_item it)")
  have t: "same_tables M1 M" using ResolveNextItem_tables [of M "ni_item it"] one by simp
  from Cons.prems one obtain st1 where
    rest: "grant_items items M1 st1 = Some (M', st')" and c: "CheckedLocations st1 = CheckedLocations st"
    by (auto split: sum.splits option.splits)
  from Cons.IH [OF rest] c t show ?case using same_tables_trans by auto
qed

lemma handle_event_facts:
  assumes "handle_event ev s = (s', effs)"
  shows "callback_locations effs = []" and "visibility_calls effs = []"
    and "checked_grows (s_state s) (s_state s')"
    and "same_tables (s_mapping s') (s_mapping s)"
proof -
  have refl_t: "same_tables (s_mapping s) (s_mapping s)" by (simp add: same_tables_def)
  show "callback_locations effs = []"
    using assms
    by (cases ev) (auto simp: slot_connected_handler_def Let_def split: slot_field.splits if_splits)
  show "visibility_calls effs = []"
    using assms
    by (cases ev) (auto simp: slot_connected_handler_def Let_def split: slot_field.splits if_splits)
  show "checked_grows (s_state s) (s_state s')"
  proof (cases ev)
    case (SlotConnected p t S r)
    with assms have "s' = fst (slot_connected_handler p t S r s)" by simp
    then show ?thesis
      by (simp add: slot_connected_checked checked_grows_def mark_server_checked_mono)
  next
    case (ItemsReceived items)
    with assms have s': "s' = items_received_handler items s" by simp
    show ?thesis
    proof (cases "grant_items items (s_mapping s) (s_state s)")
      case None
      with s' show ?thesis by (simp add: items_received_handler_def)
    next
      case (Some a)
      obtain M1 st1 where a: "a = (M1, st1)" by (cases a)
      from grant_items_facts [OF Some [unfolded a]] s' Some a show ?thesis
        by (simp add: items_received_handler_def checked_grows_def)
    qed
  next
    case (LocationChecked locations)
    with assms show ?thesis
      by (auto simp: location_checked_handler_def checked_grows_def mark_server_checked_mono)
  qed (use assms in auto)
  show "same_tables (s_mapping s') (s_mapping s)"
  proof (cases ev)
    case (SlotConnected p t S r)
    with assms have "s' = fst (slot_connected_handler p t S r s)" by simp
    then show ?thesis by (simp add: slot_connected_mapping ResetItemCounters_tables)
  next
    case (ItemsReceived items)
    with assms have s': "s' = items_received_handler items s" by simp
    show ?thesis
    proof (cases "grant_items items (s_mapping s) (s_state s)")
      case None
      with s' refl_t show ?thesis by (simp add: items_received_handler_def)
    next
      case (Some a)
      obtain M1 st1 where a: "a = (M1, st1)" by (cases a)
      from grant_items_facts [OF Some [unfolded a]] s' Some a show ?thesis
        by (simp add: items_received_handler_def)
    qed
  qed (use assms refl_t in \<open>auto simp: location_checked_handler_def\<close>)
qed

lemma Poll_facts:
  assumes "Poll evs s = (s', effs)"
  shows "callback_locations effs = [] \<and> visibility_calls effs = [] \<and>
         checked_grows (s_state s) (s_state s') \<and> same_tables (s_mapping s') (s_mapping s)"
  using assms
proof (induction evs arbitrary: s s' effs)
  case Nil
  then show ?case by (auto simp: same_tables_def)
next
  case (Cons ev evs)
  obtain s1 e1 where one: "handle_event ev s = (s1, e1)" by (cases "handle_event ev s")
  obtain s2 e2 where rest: "Poll evs s1 = (s2, e2)" by (cases "Poll evs s1")
  from Cons.prems one rest have eq: "s' = s2" "effs = e1 @ e2" by simp_all
  note h = handle_event_facts [OF one]
  note p = Cons.IH [OF rest]
  show ?case
    using h p eq checked_grows_trans same_tables_trans by (simp; blast)
qed


lemma ScanLevel_quiet:
  "callback_locations (snd (ScanLevel w st vm)) = []"
  "sent_locations (snd (ScanLevel w st vm)) = []"
  by (rule only_visibility_calls, rule ScanLevel_shape)+

lemma RefreshVisibility_quiet:
  "callback_locations (snd (RefreshVisibility w st vm)) = []"
  "sent_locations (snd (RefreshVisibility w st vm)) = []"
  by (rule only_visibility_calls, rule RefreshVisibility_shape)+

text \<open>The steps of a tick keep the invariant of a session.\<close>

lemma poll_step_facts:
  assumes "poll_step inp m = (m', effs)"
  shows "callback_locations effs = []" and "visibility_calls effs = []"
    and "checked_grows (m_state m) (m_state m')"
    and "m_visibilityManager m' = m_visibilityManager m" and "m_tickCount m' = m_tickCount m"
    and "m_shuttingDown m' = m_shuttingDown m"
    and "m_itemMapping m = Some M \<Longrightarrow> \<exists>M'. m_itemMapping m' = Some M' \<and> same_tables M' M"
proof -
  have all: "callback_locations effs = [] \<and> visibility_calls effs = [] \<and>
      checked_grows (m_state m) (m_state m') \<and> m_visibilityManager m' = m_visibilityManager m \<and>
      m_tickCount m' = m_tickCount m \<and> m_shuttingDown m' = m_shuttingDown m \<and>
      (\<forall>M. m_itemMapping m = Some M \<longrightarrow> (\<exists>M'. m_itemMapping m' = Some M' \<and> same_tables M' M))"
  proof (cases "\<exists>c M. m_apClient m = Some c \<and> m_itemMapping m = Some M \<and> has_ap c")
    case False
    then have "poll_step inp m = (m, [])"
      by (auto simp: poll_step_def split: option.splits)
    with assms show ?thesis by (auto simp: same_tables_def)
  next
    case True
    then obtain c M where c: "m_apClient m = Some c" "m_itemMapping m = Some M" "has_ap c" by blast
    obtain s' e where run: "Poll (net_events inp) \<lparr>s_client = c, s_state = m_state m, s_mapping = M\<rparr> = (s', e)"
      by (cases "Poll (net_events inp) \<lparr>s_client = c, s_state = m_state m, s_mapping = M\<rparr>")
    from assms c run have eq: "effs = e"
      "m' = m\<lparr>m_state := s_state s', m_itemMapping := Some (s_mapping s'), m_apClient := Some (s_client s')\<rparr>"
      by (simp_all add: poll_step_def)
    from Poll_facts [OF run] eq c show ?thesis by simp
  qed
  from all show "callback_locations effs = []" and "visibility_calls effs = []"
    and "checked_grows (m_state m) (m_state m')"
    and "m_visibilityManager m' = m_visibilityManager m" and "m_tickCount m' = m_tickCount m"
    and "m_shuttingDown m' = m_shuttingDown m"
    and "m_itemMapping m = Some M \<Longrightarrow> \<exists>M'. m_itemMapping m' = Some M' \<and> same_tables M' M"
    by blast+
qed

lemma scan_step_facts:
  assumes "scan_step inp m = (m', effs)"
  shows "callback_locations effs = []"
    and "CheckedLocations (m_state m') = CheckedLocations (m_state m)"
    and "m_itemMapping m' = m_itemMapping m"
    and "reported_are_checked (m_state m) (m_tracked (m_visibilityManager m)) \<Longrightarrow>
         reported_are_checked (m_state m') (m_tracked (m_visibilityManager m'))"
proof -
  show "callback_locations effs = []"
    using assms ScanLevel_quiet(1) [of "scan_world inp" "(m_state m)\<lparr>NeedsTetrominoScan := False\<rparr>"
        "ResetCache (m_visibilityManager m)"]
    by (auto simp: scan_step_def Let_def split: if_splits prod.splits)
  show "CheckedLocations (m_state m') = CheckedLocations (m_state m)"
    using assms by (auto simp: scan_step_def Let_def split: if_splits prod.splits)
  show "m_itemMapping m' = m_itemMapping m"
    using assms by (auto simp: scan_step_def Let_def split: if_splits prod.splits)
  show "reported_are_checked (m_state m') (m_tracked (m_visibilityManager m'))"
    if "reported_are_checked (m_state m) (m_tracked (m_visibilityManager m))"
  proof (cases "NeedsTetrominoScan (m_state m)")
    case False
    with assms that show ?thesis by (simp add: scan_step_def)
  next
    case True
    let ?st = "(m_state m)\<lparr>NeedsTetrominoScan := False\<rparr>"
    obtain vm e where run: "ScanLevel (scan_world inp) ?st (ResetCache (m_visibilityManager m)) = (vm, e)"
      by (cases "ScanLevel (scan_world inp) ?st (ResetCache (m_visibilityManager m))")
    from assms True run have "m' = m\<lparr>m_state := ?st, m_visibilityManager := vm\<rparr>"
      by (simp add: scan_step_def Let_def)
    with ScanLevel_facts(2) [OF run] show ?thesis by simp
  qed
qed


lemma refresh_step_facts:
  assumes "refresh_step inp m = (m', effs)"
  shows "callback_locations effs = []"
    and "m_state m' = m_state m" and "m_itemMapping m' = m_itemMapping m"
    and "reported_are_checked (m_state m) (m_tracked (m_visibilityManager m)) \<Longrightarrow>
         reported_are_checked (m_state m') (m_tracked (m_visibilityManager m'))"
proof -
  show "callback_locations effs = []"
    using assms RefreshVisibility_quiet(1) [of "refresh_world inp" "m_state m" "m_visibilityManager m"]
    by (auto simp: refresh_step_def split: if_splits prod.splits)
  show "m_state m' = m_state m" and "m_itemMapping m' = m_itemMapping m"
    using assms by (auto simp: refresh_step_def split: if_splits prod.splits)
  show "reported_are_checked (m_state m') (m_tracked (m_visibilityManager m'))"
    if "reported_are_checked (m_state m) (m_tracked (m_visibilityManager m))"
    using assms that RefreshVisibility_facts(2)
    by (fastforce simp: refresh_step_def split: if_splits prod.splits)
qed















text \<open>Only the slot-connected handler of a poll sends location checks.\<close>

lemma handle_event_sends:
  "\<not> is_slot_connected ev \<Longrightarrow> sent_locations (snd (handle_event ev s)) = []"
  by (cases ev) auto

text \<open>
  A poll that leaves \<open>APSynced\<close> false has run no slot-connected handler to its end, and
  has sent nothing unless one was left by the exception.
\<close>

lemma mark_server_checked_synced:
  "APSynced (mark_server_checked M ids st) = APSynced st"
  by (induction M ids st rule: mark_server_checked.induct) (simp_all add: Let_def MarkLocationChecked_def)

lemma handle_event_synced:
  "APSynced (s_state s) \<Longrightarrow> APSynced (s_state (fst (handle_event ev s)))"
proof (cases ev)
  case (SlotConnected p t S r)
  assume "APSynced (s_state s)"
  with SlotConnected show ?thesis
    by (simp add: slot_connected_handler_def Let_def mark_server_checked_synced split: slot_field.split)
next
  case (ItemsReceived items)
  assume "APSynced (s_state s)"
  with ItemsReceived show ?thesis
    by (simp add: items_received_handler_def split: option.split)
next
  case (LocationChecked locations)
  assume "APSynced (s_state s)"
  with LocationChecked show ?thesis
    by (simp add: location_checked_handler_def mark_server_checked_synced)
qed simp_all

lemma Poll_synced:
  "APSynced (s_state s) \<Longrightarrow> APSynced (s_state (fst (Poll evs s)))"
proof (induction evs arbitrary: s)
  case Nil
  then show ?case by simp
next
  case (Cons ev evs)
  obtain s1 e1 where one: "handle_event ev s = (s1, e1)" by (cases "handle_event ev s")
  obtain s2 e2 where rest: "Poll evs s1 = (s2, e2)" by (cases "Poll evs s1")
  have "APSynced (s_state s1)" using handle_event_synced [OF Cons.prems, of ev] one by simp
  from Cons.IH [OF this] rest one show ?case by simp
qed

lemma slot_connected_synced:
  "is_slot_connected ev \<Longrightarrow> \<not> slot_data_throws ev \<Longrightarrow> APSynced (s_state (fst (handle_event ev s)))"
proof (cases ev)
  case (SlotConnected p t S r)
  assume "\<not> slot_data_throws ev"
  with SlotConnected have "r \<noteq> FieldWrongType" by auto
  with SlotConnected show ?thesis
    by (cases r) (simp_all add: slot_connected_handler_def Let_def)
qed simp_all

lemma Poll_unsynced_sends:
  assumes "\<forall>ev \<in> set evs. \<not> slot_data_throws ev"
    and "\<not> APSynced (s_state (fst (Poll evs s)))"
  shows "sent_locations (snd (Poll evs s)) = []"
  using assms
proof (induction evs arbitrary: s)
  case Nil
  show ?case by simp
next
  case (Cons ev evs)
  obtain s1 e1 where one: "handle_event ev s = (s1, e1)" by (cases "handle_event ev s")
  obtain s2 e2 where rest: "Poll evs s1 = (s2, e2)" by (cases "Poll evs s1")
  have un2: "\<not> APSynced (s_state s2)" using Cons.prems(2) one rest by simp
  have un1: "\<not> APSynced (s_state s1)" using Poll_synced [of s1 evs] rest un2 by auto
  have "\<not> is_slot_connected ev"
    using slot_connected_synced [of ev s] one un1 Cons.prems(1) by auto
  then have "sent_locations e1 = []" using handle_event_sends [of ev s] one by simp
  moreover have "sent_locations e2 = []" using Cons.IH [of s1] rest Cons.prems(1) un2 by simp
  ultimately show ?case using one rest by simp
qed

lemma poll_step_unsynced_sends:
  assumes "\<forall>ev \<in> set (net_events inp). \<not> slot_data_throws ev"
    and "\<not> APSynced (m_state (fst (poll_step inp m)))"
  shows "sent_locations (snd (poll_step inp m)) = []"
proof (cases "\<exists>c M. m_apClient m = Some c \<and> m_itemMapping m = Some M \<and> has_ap c")
  case False
  then have "poll_step inp m = (m, [])" by (auto simp: poll_step_def split: option.splits)
  then show ?thesis by simp
next
  case True
  then obtain c M where c: "m_apClient m = Some c" "m_itemMapping m = Some M" "has_ap c" by blast
  let ?s = "\<lparr>s_client = c, s_state = m_state m, s_mapping = M\<rparr>"
  obtain s' e where run: "Poll (net_events inp) ?s = (s', e)" by (cases "Poll (net_events inp) ?s")
  have "\<not> APSynced (s_state s')" using assms(2) c run by (simp add: poll_step_def)
  then have "sent_locations e = []" using Poll_unsynced_sends [OF assms(1), of ?s] run by simp
  then show ?thesis using c run by (simp add: poll_step_def)
qed

section \<open>Properties of the fence retry queue\<close>

lemma try_open_fence_logs: "fence_logs t (snd (try_open_fence name fences)) = []"
  by (induction name fences rule: try_open_fence.induct)
     (auto simp: fence_logs_def split: prod.split)

lemma find_and_open_logs: "fence_logs t (snd (find_and_open found name)) = []"
  by (simp add: find_and_open_def try_open_fence_logs split: option.split) (simp add: fence_logs_def)

lemma fence_logs_append [simp]: "fence_logs t (xs @ ys) = fence_logs t xs @ fence_logs t ys"
  by (simp add: fence_logs_def)

lemma process_pending_Cons:
  "process_pending fences k (entry # rest) =
    (let r = find_and_open (fences k) (fenceFullName entry);
         p = process_pending fences (Suc k) rest
     in if fst r
        then (fst p, snd r @ [LogFenceOpened (pending_tetId entry) (attempts entry + 1)] @ snd p)
        else if attempts entry + 1 < 10
        then (entry\<lparr>attempts := attempts entry + 1\<rparr> # fst p,
              snd r @ [LogFenceRetry (attempts entry + 1) (pending_tetId entry)] @ snd p)
        else (fst p, snd r @ [LogFenceGaveUp (pending_tetId entry)] @ snd p))"
  by (simp add: find_and_open_def Let_def split: prod.split option.split)

text \<open>One pass over the queue, seen from the entries of one tetromino whose fence is never found.\<close>

lemma process_pending_unresolved:
  assumes "\<forall>e\<in>set pending. pending_tetId e = t \<longrightarrow> (\<forall>k. \<not> fst (find_and_open (fences k) (fenceFullName e)))"
  shows "entries_of t (fst (process_pending fences k pending)) =
           map (\<lambda>e. e\<lparr>attempts := attempts e + 1\<rparr>) (filter (\<lambda>e. attempts e + 1 < 10) (entries_of t pending))
       \<and> fence_logs t (snd (process_pending fences k pending)) =
           map (\<lambda>e. if attempts e + 1 < 10 then LogFenceRetry (attempts e + 1) t else LogFenceGaveUp t)
               (entries_of t pending)"
  using assms
proof (induction pending arbitrary: k)
  case Nil
  show ?case by (simp add: entries_of_def fence_logs_def)
next
  case (Cons entry rest)
  have IH: "entries_of t (fst (process_pending fences (Suc k) rest)) =
           map (\<lambda>e. e\<lparr>attempts := attempts e + 1\<rparr>) (filter (\<lambda>e. attempts e + 1 < 10) (entries_of t rest))
       \<and> fence_logs t (snd (process_pending fences (Suc k) rest)) =
           map (\<lambda>e. if attempts e + 1 < 10 then LogFenceRetry (attempts e + 1) t else LogFenceGaveUp t)
               (entries_of t rest)"
    using Cons.IH [of "Suc k"] Cons.prems by simp
  define r where "r = find_and_open (fences k) (fenceFullName entry)"
  define p where "p = process_pending fences (Suc k) rest"
  have rl: "fence_logs t (snd r) = []" unfolding r_def by (rule find_and_open_logs)
  note step = process_pending_Cons [of fences k entry rest, folded r_def p_def]
  show ?case
  proof (cases "pending_tetId entry = t")
    case True
    then have nr: "\<not> fst r" using Cons.prems unfolding r_def by simp
    show ?thesis
      using IH True nr rl unfolding step p_def [symmetric]
      by (simp add: Let_def entries_of_def fence_logs_def)
  next
    case False
    show ?thesis
      using IH False rl unfolding step p_def [symmetric]
      by (simp add: Let_def entries_of_def fence_logs_def)
  qed
qed

lemma ProcessPendingFenceOpens_unresolved:
  assumes avail: "m_fnFenceOpen vm \<or> open_function_found w"
    and never: "\<forall>e\<in>set (m_pendingFenceOpens vm). pending_tetId e = t \<longrightarrow>
                  (\<forall>k. \<not> fst (find_and_open (find_fences w k) (fenceFullName e)))"
  shows "entries_of t (m_pendingFenceOpens (fst (ProcessPendingFenceOpens w vm))) =
           map (\<lambda>e. e\<lparr>attempts := attempts e + 1\<rparr>)
               (filter (\<lambda>e. attempts e + 1 < 10) (entries_of t (m_pendingFenceOpens vm)))"
    and "fence_logs t (snd (ProcessPendingFenceOpens w vm)) =
           map (\<lambda>e. retry_log t (attempts e + 1)) (entries_of t (m_pendingFenceOpens vm))"
    and "m_fnFenceOpen vm \<longrightarrow> m_fnFenceOpen (fst (ProcessPendingFenceOpens w vm))"
proof -
  note pp = process_pending_unresolved [OF never, of 0]
  obtain remaining effs where r:
    "process_pending (find_fences w) 0 (m_pendingFenceOpens vm) = (remaining, effs)"
    by (cases "process_pending (find_fences w) 0 (m_pendingFenceOpens vm)")
  show "entries_of t (m_pendingFenceOpens (fst (ProcessPendingFenceOpens w vm))) =
           map (\<lambda>e. e\<lparr>attempts := attempts e + 1\<rparr>)
               (filter (\<lambda>e. attempts e + 1 < 10) (entries_of t (m_pendingFenceOpens vm)))"
    using pp avail r by (auto simp: ProcessPendingFenceOpens_def entries_of_def)
  show "fence_logs t (snd (ProcessPendingFenceOpens w vm)) =
           map (\<lambda>e. retry_log t (attempts e + 1)) (entries_of t (m_pendingFenceOpens vm))"
    using pp avail r
    by (auto simp: ProcessPendingFenceOpens_def entries_of_def fence_logs_def retry_log_def)
  show "m_fnFenceOpen vm \<longrightarrow> m_fnFenceOpen (fst (ProcessPendingFenceOpens w vm))"
    using r by (simp add: ProcessPendingFenceOpens_def)
qed

lemma fence_passes_unresolved:
  assumes "m_fnFenceOpen vm \<or> (\<forall>w\<in>set ws. open_function_found w)"
    and "\<forall>w\<in>set ws. \<forall>e\<in>set (m_pendingFenceOpens vm). pending_tetId e = t \<longrightarrow>
           (\<forall>k. \<not> fst (find_and_open (find_fences w k) (fenceFullName e)))"
    and "\<forall>e\<in>set (entries_of t (m_pendingFenceOpens vm)). attempts e = a"
    and "a + int (length ws) \<le> 10"
    and "a < 10"
  shows "entries_of t (m_pendingFenceOpens (fst (fence_passes ws vm))) =
           (if a + int (length ws) < 10
            then map (\<lambda>e. e\<lparr>attempts := a + int (length ws)\<rparr>) (entries_of t (m_pendingFenceOpens vm))
            else [])
       \<and> fence_logs t (snd (fence_passes ws vm)) =
           concat (map (\<lambda>j. replicate (length (entries_of t (m_pendingFenceOpens vm))) (retry_log t (a + int j)))
                       [1..<Suc (length ws)])"
  using assms
proof (induction ws arbitrary: vm a)
  case Nil
  have "map (\<lambda>e. e\<lparr>attempts := a\<rparr>) (entries_of t (m_pendingFenceOpens vm)) =
        map (\<lambda>e. e) (entries_of t (m_pendingFenceOpens vm))"
    using Nil.prems(3) by (intro map_cong) auto
  then show ?case using Nil.prems(5) by (simp add: fence_logs_def)
next
  case (Cons w ws)
  let ?q = "entries_of t (m_pendingFenceOpens vm)"
  define vm1 where "vm1 = fst (ProcessPendingFenceOpens w vm)"
  define effs1 where "effs1 = snd (ProcessPendingFenceOpens w vm)"
  have avail: "m_fnFenceOpen vm \<or> open_function_found w" using Cons.prems(1) by auto
  have never: "\<forall>e\<in>set (m_pendingFenceOpens vm). pending_tetId e = t \<longrightarrow>
                  (\<forall>k. \<not> fst (find_and_open (find_fences w k) (fenceFullName e)))"
    using Cons.prems(2) by simp
  note one = ProcessPendingFenceOpens_unresolved [OF avail never, folded vm1_def effs1_def]
  have lt: "a + 1 \<le> 10" using Cons.prems(4) by simp
  have q1: "entries_of t (m_pendingFenceOpens vm1) =
      (if a + 1 < 10 then map (\<lambda>e. e\<lparr>attempts := a + 1\<rparr>) ?q else [])"
  proof -
    have "filter (\<lambda>e. attempts e + 1 < 10) ?q = (if a + 1 < 10 then ?q else [])"
      using Cons.prems(3) by (auto intro: filter_True simp: filter_empty_conv)
    moreover have "map (\<lambda>e. e\<lparr>attempts := attempts e + 1\<rparr>) ?q = map (\<lambda>e. e\<lparr>attempts := a + 1\<rparr>) ?q"
      using Cons.prems(3) by (intro map_cong) auto
    ultimately show ?thesis using one(1) by simp
  qed
  have l1: "fence_logs t effs1 = replicate (length ?q) (retry_log t (a + 1))"
  proof -
    have "map (\<lambda>e. retry_log t (attempts e + 1)) ?q = map (\<lambda>e. retry_log t (a + 1)) ?q"
      using Cons.prems(3) by (intro map_cong) auto
    then show ?thesis using one(2) by (simp add: map_replicate_const)
  qed
  have run: "fence_passes (w # ws) vm =
      (fst (fence_passes ws vm1), effs1 @ snd (fence_passes ws vm1))"
    by (simp add: vm1_def effs1_def split: prod.split)
  show ?case
  proof (cases "ws = []")
    case True
    have run0: "fence_passes [w] vm = (vm1, effs1)"
      by (simp add: vm1_def effs1_def split: prod.split)
    show ?thesis using q1 l1 lt unfolding True run0 by simp
  next
    case False
    then have a1: "a + 1 < 10" using Cons.prems(4) by (cases ws) auto
    have p1: "m_fnFenceOpen vm1 \<or> (\<forall>w\<in>set ws. open_function_found w)"
      using Cons.prems(1) one(3) by auto
    have p2: "\<forall>w\<in>set ws. \<forall>e\<in>set (m_pendingFenceOpens vm1). pending_tetId e = t \<longrightarrow>
           (\<forall>k. \<not> fst (find_and_open (find_fences w k) (fenceFullName e)))"
    proof (intro ballI impI)
      fix w' e assume w': "w' \<in> set ws" and e: "e \<in> set (m_pendingFenceOpens vm1)" and t: "pending_tetId e = t"
      from e t have "e \<in> set (entries_of t (m_pendingFenceOpens vm1))" by (simp add: entries_of_def)
      then obtain e0 where e0: "e0 \<in> set ?q" "e = e0\<lparr>attempts := a + 1\<rparr>"
        using q1 a1 by auto
      then have "e0 \<in> set (m_pendingFenceOpens vm)" "pending_tetId e0 = t" "fenceFullName e = fenceFullName e0"
        by (simp_all add: entries_of_def)
      then show "\<forall>k. \<not> fst (find_and_open (find_fences w' k) (fenceFullName e))"
        using Cons.prems(2) w' by simp
    qed
    have p3: "\<forall>e\<in>set (entries_of t (m_pendingFenceOpens vm1)). attempts e = a + 1"
      using q1 a1 by auto
    have p4: "(a + 1) + int (length ws) \<le> 10" using Cons.prems(4) by simp
    note IH = Cons.IH [OF p1 p2 p3 p4 a1]
    have len: "length (entries_of t (m_pendingFenceOpens vm1)) = length ?q" using q1 a1 by simp
    have shift: "[1..<Suc (length (w # ws))] = 1 # map Suc [1..<Suc (length ws)]"
      by (simp add: upt_conv_Cons map_Suc_upt del: upt_Suc)
    have e: "entries_of t (m_pendingFenceOpens (fst (fence_passes (w # ws) vm))) =
           (if a + int (length (w # ws)) < 10
            then map (\<lambda>e. e\<lparr>attempts := a + int (length (w # ws))\<rparr>) ?q else [])"
      using IH q1 a1 unfolding run by (simp add: o_def ac_simps)
    have l: "fence_logs t (snd (fence_passes (w # ws) vm)) =
           concat (map (\<lambda>j. replicate (length ?q) (retry_log t (a + int j))) [1..<Suc (length (w # ws))])"
      unfolding run shift using IH l1 len
      by (simp add: o_def ac_simps del: upt_Suc)
    from e l show ?thesis by blast
  qed
qed

section \<open>The example configurations\<close>

lemma char_of_49: "char_of (49::nat) = CHR ''1''"
  by code_simp

lemma example_actor_id: "item_tetId (Some example_actor) = Some ''DJ1''"
  by (simp add: item_tetId_def example_actor_def ReadInstanceInfo_def FormatTetrominoId_def
      TypeToLetter_def ShapeToLetter_def to_string_def char_of_49)

lemma constructed_location_nonneg:
  assumes "same_tables M constructed_mapping" and "name \<in> set location_names"
  shows "0 \<le> GetLocationId M name"
proof -
  have n: "m_locationNameToId M = m_locationNameToId constructed_mapping"
    and i: "m_locationIdToName M = m_locationIdToName constructed_mapping"
    using assms(1) by (simp_all add: same_tables_def)
  from assms(2) constructed_locations(2) n obtain v where v: "m_locationNameToId M name = Some v" by auto
  with constructed_locations(1) n i have "m_locationIdToName constructed_mapping v = Some name"
    by (simp add: inverse_tables_def)
  then have "v \<in> dom (m_locationIdToName constructed_mapping)" by auto
  with constructed_locations(3) have "BASE_LOCATION_ID \<le> v" by blast
  then show ?thesis using v by (simp add: GetLocationId_def BASE_LOCATION_ID_def)
qed

lemma example_location_nonneg: "0 \<le> GetLocationId constructed_mapping ''DJ1''"
  by (rule constructed_location_nonneg) (simp_all add: same_tables_def location_names_def ALL_TETROMINOES_def)

lemma example_actor_fields:
  "position example_actor = Some (0, 0, 0)"
  "hidden_at_retry example_actor = False"
  "hidden_at_pickup example_actor = False"
  by (simp_all add: example_actor_def)

lemmas tick_defs = on_update_def poll_step_def SendLocationCheck_def update_passes_def scan_step_def enforce_step_def
  refresh_step_def fence_step_def ScanLevel_def RefreshVisibility_def EnforceVisibility_def
  ProcessPendingFenceOpens_def ResetCache_def apply_visibility_def enforce_entry_def
  ShouldBeCollectable_def IsLocationChecked_def MarkLocationChecked_def Dlist.member_def
  carry_over_def new_tracked_def item_position_def VISIBILITY_RETRY_COUNT_def
  OpenFenceForTetromino_def location_check_lambda_def after_poll_def

lemmas example_defs = example_mod_def example_input_def example_world_def ModState_init_def
  VisibilityManager_init_def always_near_def

lemma example_pickup_state:
  "m_tracked (m_visibilityManager (fst (on_update always_near example_input (example_mod True True 34)))) =
     [(''DJ1'', \<lparr>tt_id = ''DJ1'', tt_x = 0, tt_y = 0, tt_z = 0, reported = True, visRetries = 9,
                  hasPosition = True\<rparr>)]"
  by (simp add: tick_defs example_defs example_actor_id example_location_nonneg Let_def
      example_actor_fields)


section \<open>The claims about the tick, the reconnect and the fence queue\<close>

subsection \<open>Enforcement gating\<close>

text \<open>
  C1. The claim does not hold for the periodic refresh: only \<open>EnforceVisibility\<close> is
  behind the \<open>APSynced\<close> flag, \<open>ScanLevel\<close> and \<open>RefreshVisibility\<close> run without it. In the
  example level, with the flag false before the tick, after its poll and after the tick,
  the 60th tick makes the refresh pass force the tracked item \<open>DJ1\<close> visible.
\<close>

theorem unsynced_refresh_forces_visibility:
  "\<not> APSynced (m_state (example_mod False False 59))
   \<and> \<not> APSynced (m_state (after_poll example_input (example_mod False False 59)))
   \<and> \<not> APSynced (m_state (fst (on_update always_near example_input (example_mod False False 59))))
   \<and> visibility_calls (snd (on_update always_near example_input (example_mod False False 59)))
       = [CallSetActorVisible ''DJ1'']"
  by (simp add: tick_defs example_defs example_actor_id example_actor_fields)

lemma enforce_step_unsynced: "\<not> APSynced (m_state m) \<Longrightarrow> enforce_step within_radius inp m = (m, [])"
  by (simp add: enforce_step_def split: option.split)

lemma scan_step_not_pending: "\<not> NeedsTetrominoScan (m_state m) \<Longrightarrow> scan_step inp m = (m, [])"
  by (simp add: scan_step_def)

lemma refresh_step_not_due: "unat (m_tickCount m) mod 60 \<noteq> 0 \<Longrightarrow> refresh_step inp m = (m, [])"
  by (simp add: refresh_step_def)

lemma scan_step_flags:
  assumes "scan_step inp m = (m', effs)"
  shows "APSynced (m_state m') = APSynced (m_state m)" and "m_tickCount m' = m_tickCount m"
  using assms by (auto simp: scan_step_def Let_def split: if_splits prod.splits)

lemma fence_step_quiet:
  "callback_locations (snd (fence_step inp m)) = []" "visibility_calls (snd (fence_step inp m)) = []"
  using ProcessPendingFenceOpens_quiet(1,3) [of "fence_world inp" "m_visibilityManager m"]
  by (auto simp: fence_step_def split: prod.splits)

lemma update_passes_unsynced:
  assumes "\<not> APSynced (m_state m)"
  shows "callback_locations (snd (update_passes within_radius inp m)) = []"
    and "\<not> NeedsTetrominoScan (m_state m) \<Longrightarrow> unat (m_tickCount m) mod 60 \<noteq> 0 \<Longrightarrow>
         visibility_calls (snd (update_passes within_radius inp m)) = []"
proof -
  let ?m0 = "m\<lparr>m_state := (m_state m)\<lparr>NeedsProgressRefresh := False\<rparr>\<rparr>"
  obtain m1 e1 where s1: "scan_step inp ?m0 = (m1, e1)" by (cases "scan_step inp ?m0")
  have un1: "\<not> APSynced (m_state m1)" using scan_step_flags(1) [OF s1] assms by simp
  have s2: "enforce_step within_radius inp m1 = (m1, [])" using un1 by (rule enforce_step_unsynced)
  obtain m3 e3 where s3: "refresh_step inp m1 = (m3, e3)" by (cases "refresh_step inp m1")
  obtain m4 e4 where s4: "fence_step inp m3 = (m4, e4)" by (cases "fence_step inp m3")
  have eq: "snd (update_passes within_radius inp m) = e1 @ e3 @ e4"
    using s1 s2 s3 s4 by (simp add: update_passes_def Let_def)
  have c4: "callback_locations e4 = []" "visibility_calls e4 = []"
    using fence_step_quiet [of inp m3] s4 by simp_all
  show "callback_locations (snd (update_passes within_radius inp m)) = []"
    using eq scan_step_facts(1) [OF s1] refresh_step_facts(1) [OF s3] c4(1) by simp
  show "visibility_calls (snd (update_passes within_radius inp m)) = []"
    if "\<not> NeedsTetrominoScan (m_state m)" and "unat (m_tickCount m) mod 60 \<noteq> 0"
  proof -
    have "scan_step inp ?m0 = (?m0, [])" using that(1) by (simp add: scan_step_not_pending)
    with s1 have m1: "m1 = ?m0" "e1 = []" by simp_all
    have "refresh_step inp m1 = (m1, [])" using that(2) m1(1) by (simp add: refresh_step_not_due)
    with s3 have "e3 = []" by simp
    with eq m1(2) c4(2) show ?thesis by simp
  qed
qed

lemma update_passes_unsynced_sends:
  assumes "\<not> APSynced (m_state m)"
  shows "sent_locations (snd (update_passes within_radius inp m)) = []"
proof -
  let ?m0 = "m\<lparr>m_state := (m_state m)\<lparr>NeedsProgressRefresh := False\<rparr>\<rparr>"
  obtain m1 e1 where s1: "scan_step inp ?m0 = (m1, e1)" by (cases "scan_step inp ?m0")
  have un1: "\<not> APSynced (m_state m1)" using scan_step_flags(1) [OF s1] assms by simp
  have s2: "enforce_step within_radius inp m1 = (m1, [])" using un1 by (rule enforce_step_unsynced)
  obtain m3 e3 where s3: "refresh_step inp m1 = (m3, e3)" by (cases "refresh_step inp m1")
  obtain m4 e4 where s4: "fence_step inp m3 = (m4, e4)" by (cases "fence_step inp m3")
  have eq: "snd (update_passes within_radius inp m) = e1 @ e3 @ e4"
    using s1 s2 s3 s4 by (simp add: update_passes_def Let_def)
  have c1: "sent_locations e1 = []"
    using s1 ScanLevel_quiet(2) [of "scan_world inp" "(m_state ?m0)\<lparr>NeedsTetrominoScan := False\<rparr>"
        "ResetCache (m_visibilityManager ?m0)"]
    by (auto simp: scan_step_def Let_def split: if_splits prod.splits)
  have c3: "sent_locations e3 = []"
    using s3 RefreshVisibility_quiet(2) [of "refresh_world inp" "m_state m1" "m_visibilityManager m1"]
    by (auto simp: refresh_step_def split: if_splits prod.splits)
  have c4: "sent_locations e4 = []"
    using s4 ProcessPendingFenceOpens_quiet(2) [of "fence_world inp" "m_visibilityManager m3"]
    by (auto simp: fence_step_def split: if_splits prod.splits)
  show ?thesis using eq c1 c3 c4 by simp
qed

text \<open>
  C1, as the code has it. In a tick whose poll leaves \<open>APSynced\<close> false, whatever is
  tracked and wherever the player is: the location-check callback is never invoked; the
  passes of the tick send no location check, so that all the tick sends is what its
  poll sends, which is nothing unless the poll runs a slot-connected handler that is left
  by the exception of reading the slot data; and no actor is forced visible or hidden
  unless the tick runs the level scan (a scan is pending) or the periodic refresh (every
  60th tick), the two passes that are not behind the flag.
\<close>

theorem unsynced_tick_reports_nothing:
  assumes "\<not> APSynced (m_state (after_poll inp m))"
  shows "callback_locations (snd (on_update within_radius inp m)) = []
       \<and> sent_locations (snd (on_update within_radius inp m)) =
           (if m_shuttingDown m then []
            else sent_locations (snd (poll_step inp (m\<lparr>m_tickCount := m_tickCount m + 1\<rparr>))))
       \<and> ((\<forall>ev \<in> set (net_events inp). \<not> slot_data_throws ev)
            \<longrightarrow> sent_locations (snd (on_update within_radius inp m)) = [])
       \<and> (\<not> NeedsTetrominoScan (m_state (after_poll inp m)) \<and> unat (m_tickCount m + 1) mod 60 \<noteq> 0
            \<longrightarrow> visibility_calls (snd (on_update within_radius inp m)) = [])"
proof (cases "m_shuttingDown m")
  case True
  then show ?thesis by (simp add: on_update_def)
next
  case False
  let ?mt = "m\<lparr>m_tickCount := m_tickCount m + 1\<rparr>"
  obtain m1 e0 where p: "poll_step inp ?mt = (m1, e0)" by (cases "poll_step inp ?mt")
  have m1: "after_poll inp m = m1" using p by (simp add: after_poll_def)
  note pf = poll_step_facts [OF p]
  have tick: "m_tickCount m1 = m_tickCount m + 1" using pf(5) by simp
  have quiet: "\<forall>ev \<in> set (net_events inp). \<not> slot_data_throws ev \<Longrightarrow> sent_locations e0 = []"
    using poll_step_unsynced_sends [of inp ?mt] p assms m1 by simp
  show ?thesis
  proof (cases "0 < LevelTransitionCooldown (m_state m1)")
    case True
    with False p have "snd (on_update within_radius inp m) = e0" by (simp add: on_update_def)
    with pf(1,2) False p quiet show ?thesis by simp
  next
    case cool: False
    with False p have eq: "snd (on_update within_radius inp m) = e0 @ snd (update_passes within_radius inp m1)"
      by (simp add: on_update_def split: prod.split)
    have un: "\<not> APSynced (m_state m1)" using assms m1 by simp
    show ?thesis
      using eq pf(1,2) update_passes_unsynced [OF un, of within_radius inp]
        update_passes_unsynced_sends [OF un, of within_radius inp] m1 tick False p quiet
      by simp
  qed
qed

theorem unsynced_tick_reports_nothing_witness:
  "m_tracked (m_visibilityManager (fst (on_update always_near example_input (example_mod False True 3)))) \<noteq> []
   \<and> \<not> APSynced (m_state (after_poll example_input
          (fst (on_update always_near example_input (example_mod False True 3)))))
   \<and> callback_locations (snd (on_update always_near example_input
          (fst (on_update always_near example_input (example_mod False True 3))))) = []
   \<and> sent_locations (snd (on_update always_near example_input
          (fst (on_update always_near example_input (example_mod False True 3))))) = []
   \<and> visibility_calls (snd (on_update always_near example_input
          (fst (on_update always_near example_input (example_mod False True 3))))) = []"
proof -
  let ?m = "fst (on_update always_near example_input (example_mod False True 3))"
  have m: "?m = \<lparr>m_state = ModState_init\<lparr>LevelTransitionCooldown := 0, APSynced := False,
                NeedsTetrominoScan := False, NeedsProgressRefresh := False\<rparr>,
              m_itemMapping = Some constructed_mapping,
              m_apClient = Some \<lparr>has_ap = True, m_connected = False, m_slotConnected = False,
                                 m_playerSlot = 1, m_teamNumber = 0\<rparr>,
              m_visibilityManager = VisibilityManager_init\<lparr>m_tracked :=
                [(''DJ1'', \<lparr>tt_id = ''DJ1'', tt_x = 0, tt_y = 0, tt_z = 0, reported = False,
                   visRetries = 10, hasPosition = True\<rparr>)]\<rparr>,
              m_tickCount = 4, m_shuttingDown = False\<rparr>"
    by (simp add: tick_defs example_defs example_actor_id example_actor_fields)
  have tr: "m_tracked (m_visibilityManager ?m) \<noteq> []" by (simp add: m)
  have un: "\<not> APSynced (m_state (after_poll example_input ?m))"
    unfolding m by (simp add: after_poll_def poll_step_def example_input_def)
  have ns: "\<not> NeedsTetrominoScan (m_state (after_poll example_input ?m))"
    unfolding m by (simp add: after_poll_def poll_step_def example_input_def)
  have tk: "unat (m_tickCount ?m + 1) mod 60 \<noteq> 0" unfolding m by simp
  have ev: "\<forall>ev \<in> set (net_events example_input). \<not> slot_data_throws ev"
    by (simp add: example_input_def)
  from unsynced_tick_reports_nothing [OF un, of always_near] ns tk tr un ev show ?thesis by blast
qed

subsection \<open>Proximity single-fire\<close>




subsection \<open>Local-ahead reconciliation\<close>



subsection \<open>Retry bound of the fence queue\<close>

text \<open>
  C8. The claim does not hold when the \<open>Open\<close> function of the fence class cannot be
  found: the pass returns before the loop and leaves the queue as it is. After ten passes
  in such a level the entry is still queued with no attempt counted, and the only log
  lines say that the function is missing.
\<close>

theorem missing_open_function_blocks_retries:
  "m_pendingFenceOpens queue_example = [pending_example]
   \<and> attempts pending_example = 0
   \<and> find_fences (fence_world_example False) = no_fences
   \<and> find_and_open (no_fences 0) (fenceFullName pending_example) = (False, [])
   \<and> fence_passes (replicate 10 (fence_world_example False)) queue_example =
       (queue_example, replicate 10 LogNoFenceOpenFunction)"
  by (simp add: queue_example_def pending_example_def fence_world_example_def no_fences_def
        find_and_open_def VisibilityManager_init_def ProcessPendingFenceOpens_def eval_nat_numeral)

text \<open>
  C8, as the code has it. Take ten successive passes in which the \<open>Open\<close> function is
  cached or found, and a tetromino whose fresh pending entries never have their fence
  resolved. After \<open>n < 10\<close> of the passes these entries are still queued with \<open>n\<close> attempts
  counted; after the tenth they are gone; each has been logged as retried for the attempts
  1 to 9 and as given up at the tenth. A pass over an empty queue returns the manager
  unchanged and does nothing.
\<close>

theorem fence_retry_bound:
  assumes avail: "m_fnFenceOpen vm \<or> (\<forall>w\<in>set ws. open_function_found w)"
    and never: "\<forall>w\<in>set ws. \<forall>e\<in>set (m_pendingFenceOpens vm). pending_tetId e = t \<longrightarrow>
           (\<forall>k. \<not> fst (find_and_open (find_fences w k) (fenceFullName e)))"
    and fresh: "\<forall>e\<in>set (entries_of t (m_pendingFenceOpens vm)). attempts e = 0"
    and len: "length ws = 10"
  shows "(\<forall>n<10. entries_of t (m_pendingFenceOpens (fst (fence_passes (take n ws) vm))) =
                 map (\<lambda>e. e\<lparr>attempts := int n\<rparr>) (entries_of t (m_pendingFenceOpens vm)))
       \<and> entries_of t (m_pendingFenceOpens (fst (fence_passes ws vm))) = []
       \<and> fence_logs t (snd (fence_passes ws vm)) =
           concat (map (\<lambda>j. replicate (length (entries_of t (m_pendingFenceOpens vm))) (LogFenceRetry (int j) t))
                       [1..<10])
           @ replicate (length (entries_of t (m_pendingFenceOpens vm))) (LogFenceGaveUp t)
       \<and> ProcessPendingFenceOpens w0 (vm\<lparr>m_pendingFenceOpens := []\<rparr>) = (vm\<lparr>m_pendingFenceOpens := []\<rparr>, [])"
proof (intro conjI allI impI)
  fix n :: nat assume n: "n < 10"
  have a: "m_fnFenceOpen vm \<or> (\<forall>w\<in>set (take n ws). open_function_found w)"
    using avail by (auto dest: in_set_takeD)
  have b: "\<forall>w\<in>set (take n ws). \<forall>e\<in>set (m_pendingFenceOpens vm). pending_tetId e = t \<longrightarrow>
           (\<forall>k. \<not> fst (find_and_open (find_fences w k) (fenceFullName e)))"
    using never by (auto dest: in_set_takeD)
  have l: "length (take n ws) = n" using len n by simp
  have c: "0 + int (length (take n ws)) \<le> 10" using n l by simp
  from fence_passes_unresolved [OF a b fresh c] n
  show "entries_of t (m_pendingFenceOpens (fst (fence_passes (take n ws) vm))) =
          map (\<lambda>e. e\<lparr>attempts := int n\<rparr>) (entries_of t (m_pendingFenceOpens vm))"
    unfolding l by simp
next
  have c: "0 + int (length ws) \<le> 10" using len by simp
  have z: "(0::int) < 10" by simp
  note all = fence_passes_unresolved [OF avail never fresh c z]
  show "entries_of t (m_pendingFenceOpens (fst (fence_passes ws vm))) = []"
    using all len by simp
  let ?m = "length (entries_of t (m_pendingFenceOpens vm))"
  have "[1..<Suc 10] = [1..<10] @ [10]" by (rule upt_Suc_append) simp
  then have up: "[1..<Suc (length ws)] = [1..<10] @ [10]" unfolding len .
  have eq: "map (\<lambda>j. replicate ?m (retry_log t (0 + int j))) [1..<10] =
        map (\<lambda>j. replicate ?m (LogFenceRetry (int j) t)) [1..<10]"
    by (intro map_cong) (auto simp: retry_log_def)
  have last: "retry_log t 10 = LogFenceGaveUp t" by (simp add: retry_log_def)
  have "fence_logs t (snd (fence_passes ws vm)) =
      concat (map (\<lambda>j. replicate ?m (retry_log t (0 + int j))) ([1..<10] @ [10]))"
    using all unfolding up by blast
  then show "fence_logs t (snd (fence_passes ws vm)) =
           concat (map (\<lambda>j. replicate ?m (LogFenceRetry (int j) t)) [1..<10])
           @ replicate ?m (LogFenceGaveUp t)"
    unfolding map_append concat_append eq by (simp add: last)
next
  show "ProcessPendingFenceOpens w0 (vm\<lparr>m_pendingFenceOpens := []\<rparr>) = (vm\<lparr>m_pendingFenceOpens := []\<rparr>, [])"
    by (simp add: ProcessPendingFenceOpens_def)
qed

theorem fence_retry_bound_witness:
  "entries_of ''DJ1'' (m_pendingFenceOpens queue_example) = [pending_example]
   \<and> attempts pending_example = 0
   \<and> entries_of ''DJ1'' (m_pendingFenceOpens
        (fst (fence_passes (replicate 9 (fence_world_example True)) queue_example))) =
       [pending_example\<lparr>attempts := 9\<rparr>]
   \<and> entries_of ''DJ1'' (m_pendingFenceOpens
        (fst (fence_passes (replicate 10 (fence_world_example True)) queue_example))) = []
   \<and> fence_logs ''DJ1'' (snd (fence_passes (replicate 10 (fence_world_example True)) queue_example)) =
       [LogFenceRetry 1 ''DJ1'', LogFenceRetry 2 ''DJ1'', LogFenceRetry 3 ''DJ1'',
        LogFenceRetry 4 ''DJ1'', LogFenceRetry 5 ''DJ1'', LogFenceRetry 6 ''DJ1'',
        LogFenceRetry 7 ''DJ1'', LogFenceRetry 8 ''DJ1'', LogFenceRetry 9 ''DJ1'',
        LogFenceGaveUp ''DJ1'']"
proof -
  let ?ws = "replicate 10 (fence_world_example True)"
  have q: "entries_of ''DJ1'' (m_pendingFenceOpens queue_example) = [pending_example]"
    by (simp add: entries_of_def queue_example_def pending_example_def)
  have a0: "attempts pending_example = 0" by (simp add: pending_example_def)
  have 1: "m_fnFenceOpen queue_example \<or> (\<forall>w\<in>set ?ws. open_function_found w)"
    by (simp add: fence_world_example_def)
  have 2: "\<forall>w\<in>set ?ws. \<forall>e\<in>set (m_pendingFenceOpens queue_example). pending_tetId e = ''DJ1'' \<longrightarrow>
           (\<forall>k. \<not> fst (find_and_open (find_fences w k) (fenceFullName e)))"
    by (simp add: fence_world_example_def no_fences_def find_and_open_def)
  have 3: "\<forall>e\<in>set (entries_of ''DJ1'' (m_pendingFenceOpens queue_example)). attempts e = 0"
    unfolding q using a0 by simp
  have 4: "length ?ws = 10" by simp
  note inst = fence_retry_bound [where ?w0.0 = "fence_world_example True", OF 1 2 3 4, unfolded q]
  have lt: "(9::nat) < 10" by simp
  have nine: "entries_of ''DJ1'' (m_pendingFenceOpens (fst (fence_passes (take 9 ?ws) queue_example))) =
      map (\<lambda>e. e\<lparr>attempts := int 9\<rparr>) [pending_example]"
    using inst lt by blast
  have t9: "take 9 ?ws = replicate 9 (fence_world_example True)" by simp
  have r1: "entries_of ''DJ1'' (m_pendingFenceOpens
        (fst (fence_passes (replicate 9 (fence_world_example True)) queue_example))) =
       [pending_example\<lparr>attempts := 9\<rparr>]"
    using nine unfolding t9 by simp
  have r2: "entries_of ''DJ1'' (m_pendingFenceOpens (fst (fence_passes ?ws queue_example))) = []"
    using inst by blast
  have "fence_logs ''DJ1'' (snd (fence_passes ?ws queue_example)) =
      concat (map (\<lambda>j. replicate (length [pending_example]) (LogFenceRetry (int j) ''DJ1'')) [1..<10])
      @ replicate (length [pending_example]) (LogFenceGaveUp ''DJ1'')"
    using inst by blast
  then have r3: "fence_logs ''DJ1'' (snd (fence_passes ?ws queue_example)) =
       [LogFenceRetry 1 ''DJ1'', LogFenceRetry 2 ''DJ1'', LogFenceRetry 3 ''DJ1'',
        LogFenceRetry 4 ''DJ1'', LogFenceRetry 5 ''DJ1'', LogFenceRetry 6 ''DJ1'',
        LogFenceRetry 7 ''DJ1'', LogFenceRetry 8 ''DJ1'', LogFenceRetry 9 ''DJ1'',
        LogFenceGaveUp ''DJ1'']"
    by (simp add: upt_conv_Cons)
  from q a0 r1 r2 r3 show ?thesis by (intro conjI)
qed

end
